theory Spec2Isabelle
  imports Main "HOL-Library.Sublist"
begin

section \<open>Python strings\<close>

text \<open>
  A Python \<open>str\<close> is modelled as a HOL \<open>string\<close> whose characters are read as the
  code points 0..255 (the Latin-1 range of Unicode).  The character classes below are
  the ones CPython uses on that range: \<open>str.isspace\<close>, the regex classes
  \<open>\d\<close>, \<open>\s\<close>, \<open>\w\<close>, \<open>str.isdigit\<close> and \<open>str.lower\<close>.
\<close>

definition code :: "char \<Rightarrow> nat" where
  "code c = of_char c"

definition is_digit :: "char \<Rightarrow> bool" where
  "is_digit c = (48 \<le> code c \<and> code c \<le> 57)"

definition is_az :: "char \<Rightarrow> bool" where
  "is_az c = (97 \<le> code c \<and> code c \<le> 122)"

definition is_AZ :: "char \<Rightarrow> bool" where
  "is_AZ c = (65 \<le> code c \<and> code c \<le> 90)"

definition is_space :: "char \<Rightarrow> bool" where
  "is_space c = ((9 \<le> code c \<and> code c \<le> 13) \<or> (28 \<le> code c \<and> code c \<le> 32)
     \<or> code c = 133 \<or> code c = 160)"

definition is_word :: "char \<Rightarrow> bool" where
  "is_word c = (is_digit c \<or> is_AZ c \<or> is_az c \<or> code c = 95
     \<or> code c = 170 \<or> code c = 178 \<or> code c = 179 \<or> code c = 181
     \<or> code c = 185 \<or> code c = 186 \<or> (188 \<le> code c \<and> code c \<le> 190)
     \<or> (192 \<le> code c \<and> code c \<le> 214) \<or> (216 \<le> code c \<and> code c \<le> 246)
     \<or> 248 \<le> code c)"

definition str_isdigit_char :: "char \<Rightarrow> bool" where
  "str_isdigit_char c = (is_digit c \<or> code c = 178 \<or> code c = 179 \<or> code c = 185)"

definition isdigit :: "string \<Rightarrow> bool" where
  "isdigit s = (s \<noteq> [] \<and> list_all str_isdigit_char s)"

definition is_upper :: "char \<Rightarrow> bool" where
  "is_upper c = (is_AZ c \<or> (192 \<le> code c \<and> code c \<le> 222 \<and> code c \<noteq> 215))"

text \<open>Lower-casing adds 32 to the code of an upper-case letter, that is, sets bit 5.\<close>

definition lower_char :: "char \<Rightarrow> char" where
  "lower_char c =
     (if is_upper c
      then (case c of Char b0 b1 b2 b3 b4 b5 b6 b7 \<Rightarrow> Char b0 b1 b2 b3 b4 True b6 b7)
      else c)"

definition lower :: "string \<Rightarrow> string" where
  "lower s = map lower_char s"

text \<open>\<open>str.upper\<close>, used by the source only on the four ASCII names of the PII types.\<close>

definition upper_char :: "char \<Rightarrow> char" where
  "upper_char c =
     (if is_az c
      then (case c of Char b0 b1 b2 b3 b4 b5 b6 b7 \<Rightarrow> Char b0 b1 b2 b3 b4 False b6 b7)
      else c)"

definition upper :: "string \<Rightarrow> string" where
  "upper s = map upper_char s"

definition strip :: "string \<Rightarrow> string" where
  "strip s = rev (dropWhile is_space (rev (dropWhile is_space s)))"

text \<open>\<open>sub in s\<close>: the substring test.\<close>

fun contains :: "string \<Rightarrow> string \<Rightarrow> bool" where
  "contains sub [] = (sub = [])"
| "contains sub (c # cs) = (prefix sub (c # cs) \<or> contains sub cs)"

text \<open>\<open>sep.join(xs)\<close>.\<close>

fun join :: "string \<Rightarrow> string list \<Rightarrow> string" where
  "join sep [] = []"
| "join sep [x] = x"
| "join sep (x # y # ys) = x @ sep @ join sep (y # ys)"

text \<open>\<open>s.split()\<close>: the maximal runs of non-whitespace characters.\<close>

fun split_ws :: "string \<Rightarrow> string \<Rightarrow> string list" where
  "split_ws acc [] = (if acc = [] then [] else [acc])"
| "split_ws acc (c # cs) =
     (if is_space c then (if acc = [] then split_ws [] cs else acc # split_ws [] cs)
      else split_ws (acc @ [c]) cs)"

definition split :: "string \<Rightarrow> string list" where
  "split s = split_ws [] s"

text \<open>\<open>s.replace(old, new)\<close> for a non-empty \<open>old\<close>: leftmost, non-overlapping.\<close>

fun replace :: "string \<Rightarrow> string \<Rightarrow> string \<Rightarrow> string" where
  "replace old new [] = []"
| "replace old new (c # cs) =
     (if old \<noteq> [] \<and> prefix old (c # cs)
      then new @ replace old new (drop (length old) (c # cs))
      else c # replace old new cs)"

section \<open>Regular expressions\<close>

text \<open>
  The regular expressions of the source use character classes, bounded and unbounded
  greedy repetition of a class, optional groups, and the assertions \<open>\b\<close>, \<open>^\<close>
  and \<open>$\<close>.  A position in the subject is the character before it (if any) and the
  rest of the subject.  \<open>rx_all\<close> lists the positions at which a match can end, in the
  order in which a backtracking matcher tries them, so that the head of the list is
  the match that Python's \<open>re\<close> reports.
\<close>

datatype rx =
    Cls "char \<Rightarrow> bool"
  | Bnd
  | Bol
  | Eol
  | Cat rx rx
  | Opt rx
  | Rep nat "nat option" "char \<Rightarrow> bool"

type_synonym pos = "char option \<times> string"

definition word_opt :: "char option \<Rightarrow> bool" where
  "word_opt x = (case x of None \<Rightarrow> False | Some c \<Rightarrow> is_word c)"

definition head_opt :: "string \<Rightarrow> char option" where
  "head_opt s = (case s of [] \<Rightarrow> None | c # _ \<Rightarrow> Some c)"

definition at_boundary :: "char option \<Rightarrow> string \<Rightarrow> bool" where
  "at_boundary pv s = (word_opt pv \<noteq> word_opt (head_opt s))"

fun rep_all :: "(char \<Rightarrow> bool) \<Rightarrow> nat \<Rightarrow> nat option \<Rightarrow> char option \<Rightarrow> string \<Rightarrow> pos list" where
  "rep_all p lo hi pv [] = (if lo = 0 then [(pv, [])] else [])"
| "rep_all p lo hi pv (c # cs) =
     (if p c \<and> hi \<noteq> Some 0
      then rep_all p (lo - 1) (map_option (\<lambda>h. h - 1) hi) (Some c) cs else [])
     @ (if lo = 0 then [(pv, c # cs)] else [])"

fun rx_all :: "rx \<Rightarrow> pos \<Rightarrow> pos list" where
  "rx_all (Cls p) (pv, s) = (case s of [] \<Rightarrow> [] | c # cs \<Rightarrow> if p c then [(Some c, cs)] else [])"
| "rx_all Bnd (pv, s) = (if at_boundary pv s then [(pv, s)] else [])"
| "rx_all Bol (pv, s) = (if pv = None then [(pv, s)] else [])"
| "rx_all Eol (pv, s) = (if s = [] \<or> s = [CHR 0x0A] then [(pv, s)] else [])"
| "rx_all (Cat a b) st = concat (map (rx_all b) (rx_all a st))"
| "rx_all (Opt a) st = rx_all a st @ [st]"
| "rx_all (Rep lo hi p) (pv, s) = rep_all p lo hi pv s"

definition Lit :: "char \<Rightarrow> rx" where
  "Lit c = Cls (\<lambda>x. x = c)"

fun cats :: "rx list \<Rightarrow> rx" where
  "cats [] = Rep 0 (Some 0) (\<lambda>c. False)"
| "cats [r] = r"
| "cats (r # rs) = Cat r (cats rs)"

text \<open>\<open>re.match(r, s)\<close> is not None.\<close>

definition re_match :: "rx \<Rightarrow> string \<Rightarrow> bool" where
  "re_match r s = (rx_all r (None, s) \<noteq> [])"

text \<open>\<open>re.search(r, s)\<close> is not None: every start position is tried, left to right.\<close>

fun rx_find :: "rx \<Rightarrow> char option \<Rightarrow> string \<Rightarrow> bool" where
  "rx_find r pv [] = (rx_all r (pv, []) \<noteq> [])"
| "rx_find r pv (c # cs) = (rx_all r (pv, c # cs) \<noteq> [] \<or> rx_find r (Some c) cs)"

definition re_search :: "rx \<Rightarrow> string \<Rightarrow> bool" where
  "re_search r s = rx_find r None s"

section \<open>Tool parameters and their validation\<close>

text \<open>
  A parameter dictionary maps names to strings or integers and keeps insertion order:
  an association list.  A Python exception is a value of \<open>py_error\<close>.
\<close>

datatype pyval = PStr string | PInt int

type_synonym params = "(string \<times> pyval) list"

datatype py_error = TypeError | ValueError | KeyError

definition has_key :: "string \<Rightarrow> params \<Rightarrow> bool" where
  "has_key k ps = (k \<in> set (map fst ps))"

definition keys :: "params \<Rightarrow> string list" where
  "keys ps = map fst ps"

text \<open>\<open>re.match(r, v)\<close> raises TypeError when \<open>v\<close> is not a string.\<close>

fun re_match_val :: "rx \<Rightarrow> pyval option \<Rightarrow> py_error + bool" where
  "re_match_val r (Some (PStr s)) = Inr (re_match r s)"
| "re_match_val r (Some (PInt n)) = Inl TypeError"
| "re_match_val r None = Inl KeyError"

fun show_val :: "pyval option \<Rightarrow> string" where
  "show_val (Some (PStr s)) = s"
| "show_val _ = []"

text \<open>\<open>^A\d{3}$\<close> and \<open>^\d{4}-\d{2}$\<close>.\<close>

definition rx_account_id :: rx where
  "rx_account_id = cats [Bol, Lit CHR ''A'', Rep 3 (Some 3) is_digit, Eol]"

definition rx_year_month :: rx where
  "rx_year_month = cats [Bol, Rep 4 (Some 4) is_digit, Lit CHR ''-'', Rep 2 (Some 2) is_digit, Eol]"

text \<open>
  \<open>int(v)\<close>: an integer is itself; a string is stripped of whitespace, may carry one
  sign, and is a run of decimal digits in which single underscores may separate digits.
  Failure is ValueError.
\<close>

definition int_space :: "char \<Rightarrow> bool" where
  "int_space c = ((9 \<le> code c \<and> code c \<le> 13) \<or> code c = 32 \<or> code c = 133 \<or> code c = 160)"

definition digit_val :: "char \<Rightarrow> int" where
  "digit_val c = int (code c) - 48"

fun digits_ok :: "bool \<Rightarrow> string \<Rightarrow> bool" where
  "digits_ok after_digit [] = after_digit"
| "digits_ok after_digit (c # cs) =
     (if is_digit c then digits_ok True cs
      else if c = CHR ''_'' \<and> after_digit then digits_ok False cs
      else False)"

definition digits_value :: "string \<Rightarrow> int" where
  "digits_value s = foldl (\<lambda>acc c. 10 * acc + digit_val c) 0 (filter is_digit s)"

definition int_of_str :: "string \<Rightarrow> int option" where
  "int_of_str s =
     (let t = rev (dropWhile int_space (rev (dropWhile int_space s)));
          neg = (t \<noteq> [] \<and> hd t = CHR ''-'');
          body = (if t \<noteq> [] \<and> (hd t = CHR ''-'' \<or> hd t = CHR ''+'') then tl t else t)
      in if digits_ok False body
         then Some (if neg then - digits_value body else digits_value body)
         else None)"

fun py_int :: "pyval option \<Rightarrow> py_error + int" where
  "py_int (Some (PInt n)) = Inr n"
| "py_int (Some (PStr s)) = (case int_of_str s of None \<Rightarrow> Inl ValueError | Some n \<Rightarrow> Inr n)"
| "py_int None = Inl KeyError"

record validation =
  is_valid :: bool
  errors :: "string list"

definition mk_validation :: "string list \<Rightarrow> validation" where
  "mk_validation es = \<lparr> is_valid = (length es = 0), errors = es \<rparr>"

text \<open>
  The check of a name-shaped parameter: nothing when the key is absent, an error
  message when the value does not match, TypeError when it is not a string.
\<close>

definition check_format :: "rx \<Rightarrow> string \<Rightarrow> string \<Rightarrow> params \<Rightarrow> py_error + string list" where
  "check_format r k msg ps =
     (if has_key k ps
      then (case re_match_val r (map_of ps k) of
              Inl e \<Rightarrow> Inl e
            | Inr ok \<Rightarrow> Inr (if \<not> ok then [msg @ show_val (map_of ps k)] else []))
      else Inr [])"

text \<open>
  The check of an integer parameter in a range; ValueError and TypeError of \<open>int\<close> are
  caught by the source and become the second message.
\<close>

definition check_range :: "string \<Rightarrow> int \<Rightarrow> int \<Rightarrow> string \<Rightarrow> string \<Rightarrow> params \<Rightarrow> string list" where
  "check_range k lo hi msg_range msg_int ps =
     (if has_key k ps
      then (case py_int (map_of ps k) of
              Inl e \<Rightarrow> [msg_int]
            | Inr n \<Rightarrow> (if n < lo \<or> n > hi then [msg_range] else []))
      else [])"

definition validate_tool_params :: "string \<Rightarrow> params \<Rightarrow> py_error + validation" where
  "validate_tool_params tool_name ps =
     (if tool_name = ''account_lookup'' then
        (case check_format rx_account_id ''account_id'' ''Invalid account_id format: '' ps of
           Inl e \<Rightarrow> Inl e
         | Inr es \<Rightarrow> Inr (mk_validation
             ((if \<not> has_key ''account_id'' ps \<and> \<not> has_key ''company'' ps
               then [''account_lookup requires either account_id or company parameter'']
               else []) @ es)))
      else if tool_name = ''invoice_status'' then
        (case check_format rx_year_month ''period'' ''Invalid period format: '' ps of
           Inl e \<Rightarrow> Inl e
         | Inr es \<Rightarrow> Inr (mk_validation
             ((if \<not> has_key ''account_id'' ps
               then [''invoice_status requires account_id parameter''] else []) @ es)))
      else if tool_name = ''ticket_summary'' then
        Inr (mk_validation
          ((if \<not> has_key ''account_id'' ps
            then [''ticket_summary requires account_id parameter''] else [])
           @ check_range ''window_days'' 1 365 ''window_days must be between 1 and 365''
               ''window_days must be an integer'' ps))
      else if tool_name = ''usage_report'' then
        (case check_format rx_year_month ''month'' ''Invalid month format: '' ps of
           Inl e \<Rightarrow> Inl e
         | Inr es \<Rightarrow> Inr (mk_validation
             ((if \<not> has_key ''account_id'' ps \<or> \<not> has_key ''month'' ps
               then [''usage_report requires account_id and month parameters''] else []) @ es)))
      else if tool_name = ''kb_search'' then
        Inr (mk_validation
          ((if \<not> has_key ''query'' ps
            then [''kb_search requires query parameter''] else [])
           @ check_range ''k'' 1 20 ''k must be between 1 and 20'' ''k must be an integer'' ps))
      else Inr (mk_validation []))"

definition AVAILABLE_TOOLS :: "string list" where
  "AVAILABLE_TOOLS =
     [''account_lookup'', ''invoice_status'', ''ticket_summary'', ''usage_report'', ''kb_search'']"

section \<open>OutputValidator\<close>

text \<open>
  The validator owns cumulative statistics, which \<open>validate_answer\<close> updates: the
  statistics are passed in and returned.
\<close>

record stats =
  total :: int
  valid :: int
  invalid :: int
  total_evidence :: int
  total_answer_length :: int

definition init_stats :: stats where
  "init_stats = \<lparr> total = 0, valid = 0, invalid = 0, total_evidence = 0,
     total_answer_length = 0 \<rparr>"

definition banned_content_patterns :: "string list" where
  "banned_content_patterns =
     [''I apologize for the confusion'', ''Let me check that for you'',
      ''I'' @ [CHR 0x27] @ ''m just an AI'', ''I don'' @ [CHR 0x27] @ ''t have access to'']"

text \<open>
  \<open>re.search(pattern, s, re.IGNORECASE)\<close> for a pattern without metacharacters, as the
  banned phrases are: a substring test that ignores case.
\<close>

definition search_ignorecase :: "string \<Rightarrow> string \<Rightarrow> bool" where
  "search_ignorecase pattern s = contains (lower pattern) (lower s)"

record answer_validation =
  answer_is_valid :: bool
  warnings :: "string list"
  blocked_patterns :: "string list"
  answer_length :: int
  evidence_count :: int

definition answer_warnings :: "string \<Rightarrow> string option \<Rightarrow> string list \<Rightarrow> string list" where
  "answer_warnings answer intent evidence =
     (if answer = [] \<or> length (strip answer) < 10 then [''Answer is too short or empty''] else [])
     @ map (\<lambda>pattern. ''Contains banned phrase: '' @ pattern)
         (filter (\<lambda>pattern. search_ignorecase pattern answer) banned_content_patterns)
     @ (if intent \<noteq> Some ''Escalation'' \<and> evidence = [] then [''No evidence provided''] else [])
     @ (if (contains ''definitely'' (lower answer) \<or> contains ''certainly'' (lower answer))
           \<and> (evidence = [] \<or> length evidence < 2)
        then [''Strong claim without sufficient evidence''] else [])
     @ (if length answer > 2500 then [''Answer is excessively long''] else [])
     @ (if intent = Some ''FAQ'' \<and> \<not> contains ''Sources:'' answer \<and> length evidence > 0
        then [''FAQ answer missing explicit source citations''] else [])"

definition validate_answer ::
  "stats \<Rightarrow> string \<Rightarrow> string option \<Rightarrow> string list \<Rightarrow> answer_validation \<times> stats" where
  "validate_answer st answer intent evidence =
     (let ws = answer_warnings answer intent evidence;
          ok = (length ws = 0);
          st1 = st\<lparr> total := total st + 1 \<rparr>;
          st2 = (if ok then st1\<lparr> valid := valid st1 + 1 \<rparr>
                 else st1\<lparr> invalid := invalid st1 + 1 \<rparr>);
          st3 = st2\<lparr> total_evidence := total_evidence st2 + int (length evidence) \<rparr>;
          st4 = st3\<lparr> total_answer_length := total_answer_length st3 + int (length answer) \<rparr>
      in (\<lparr> answer_is_valid = ok, warnings = ws,
            blocked_patterns = filter (\<lambda>pattern. search_ignorecase pattern answer)
              banned_content_patterns,
            answer_length = int (length answer), evidence_count = int (length evidence) \<rparr>,
          st4))"

text \<open>\<open>validate_evidence\<close>: the warnings only, which is what the pipeline reads.\<close>

definition evidence_types :: "string list \<Rightarrow> string list" where
  "evidence_types evidence =
     remdups (map (takeWhile (\<lambda>c. c \<noteq> CHR '':'')) (filter (contains '':'') evidence))"

definition validate_evidence :: "string list \<Rightarrow> string list" where
  "validate_evidence evidence =
     (if length evidence = 0 then [''No evidence collected''] else [])
     @ (if length (evidence_types evidence) = 0 then [''Evidence has no type tags''] else [])"

definition check_intent_answer_match :: "string option \<Rightarrow> string \<Rightarrow> string list \<Rightarrow> bool" where
  "check_intent_answer_match intent answer evidence =
     (if intent = Some ''FAQ'' then list_ex (contains ''doc:'') evidence
      else if intent = Some ''DataLookup'' then list_ex (contains ''tool:'') evidence
      else if intent = Some ''Escalation''
        then contains ''support'' (lower answer) \<or> contains ''contact'' (lower answer)
      else True)"

definition NL :: char where
  "NL = CHR 0x0A"

lemma length_replace_le:
  "length new \<le> length old \<Longrightarrow> length (replace old new s) \<le> length s"
proof (induction old new s rule: replace.induct)
  case (1 old new)
  then show ?case by simp
next
  case (2 old new c cs)
  show ?case
  proof (cases "old \<noteq> [] \<and> prefix old (c # cs)")
    case True
    then have "length old \<le> length (c # cs)" by (auto dest: prefix_length_le)
    with True 2 show ?thesis by simp
  next
    case False
    with 2 show ?thesis by auto
  qed
qed

lemma length_replace_less:
  "length new < length old \<Longrightarrow> contains old s \<Longrightarrow> length (replace old new s) < length s"
proof (induction old new s rule: replace.induct)
  case (1 old new)
  then show ?case by simp
next
  case (2 old new c cs)
  show ?case
  proof (cases "old \<noteq> [] \<and> prefix old (c # cs)")
    case True
    then have le: "length old \<le> length (c # cs)" by (auto dest: prefix_length_le)
    have "length (replace old new (drop (length old) (c # cs))) \<le> length (drop (length old) (c # cs))"
      using 2(3) by (intro length_replace_le) simp
    with True le 2(3) show ?thesis by simp
  next
    case False
    with 2 show ?thesis by auto
  qed
qed

text \<open>
  \<open>while "\n\n\n" in text: text = text.replace("\n\n\n", "\n\n")\<close>: every round
  shortens the text, so the loop ends.
\<close>

function collapse_newlines :: "string \<Rightarrow> string" where
  "collapse_newlines s =
     (if contains [NL, NL, NL] s then collapse_newlines (replace [NL, NL, NL] [NL, NL] s) else s)"
  by pat_completeness auto
termination
  by (relation "measure length") (auto intro: length_replace_less)

declare collapse_newlines.simps [simp del]

definition sanitize_output :: "string \<Rightarrow> string" where
  "sanitize_output text =
     strip (collapse_newlines
       (replace ''</script>'' ''[/script]'' (replace ''<script>'' ''[script]'' text)))"

definition stats_invariant :: "stats \<Rightarrow> bool" where
  "stats_invariant st = (total st = valid st + invalid st)"

section \<open>Parameter validation: the claims\<close>

text \<open>
  C7.  \<open>validate_tool_params\<close> on the tool \<open>invoice_status\<close> with
  \<open>{account_id: "A001", period: "2025-13"}\<close> reports the parameters valid, with an empty
  error list: the period is checked for its shape only, not for being a month.
\<close>

theorem invoice_status_period_shape_only:
  "validate_tool_params ''invoice_status''
     [(''account_id'', PStr ''A001''), (''period'', PStr ''2025-13'')]
   = Inr \<lparr> is_valid = True, errors = [] \<rparr>"
  by (simp add: validate_tool_params_def check_format_def has_key_def mk_validation_def
      re_match_def rx_year_month_def Lit_def is_digit_def code_def)

theorem invoice_status_period_shape_only_witness:
  "\<exists>v. validate_tool_params ''invoice_status''
         [(''account_id'', PStr ''A001''), (''period'', PStr ''2025-13'')] = Inr v
       \<and> is_valid v \<and> errors v = []"
  using invoice_status_period_shape_only by simp

text \<open>
  C9.  For a tool name that is none of the five known tools, and for every parameter
  dictionary, \<open>validate_tool_params\<close> returns normally and reports the call valid with an
  empty error list.
\<close>

theorem unknown_tool_params_valid:
  "tool_name \<notin> set AVAILABLE_TOOLS \<Longrightarrow>
   validate_tool_params tool_name ps = Inr \<lparr> is_valid = True, errors = [] \<rparr>"
  by (simp add: validate_tool_params_def AVAILABLE_TOOLS_def mk_validation_def)

theorem unknown_tool_params_valid_witness:
  "''delete_account'' \<notin> set AVAILABLE_TOOLS \<and>
   validate_tool_params ''delete_account'' [(''account_id'', PInt 7)]
   = Inr \<lparr> is_valid = True, errors = [] \<rparr>"
  using unknown_tool_params_valid [of "''delete_account''" "[(''account_id'', PInt 7)]"]
  by (simp add: AVAILABLE_TOOLS_def)

section \<open>Validator statistics: the claim\<close>

text \<open>
  C10.  The statistics satisfy \<open>total = valid + invalid\<close>: at creation, and after every
  call of \<open>validate_answer\<close> that started from statistics satisfying it.  Every call adds
  exactly 1 to \<open>total\<close> and exactly 1 to one of \<open>valid\<close> and \<open>invalid\<close>, to \<open>valid\<close> exactly
  when the call produced no warnings.
\<close>

theorem validate_answer_stats:
  "stats_invariant init_stats
   \<and> (stats_invariant st \<longrightarrow> stats_invariant (snd (validate_answer st answer intent evidence)))
   \<and> total (snd (validate_answer st answer intent evidence)) = total st + 1
   \<and> (if warnings (fst (validate_answer st answer intent evidence)) = []
      then valid (snd (validate_answer st answer intent evidence)) = valid st + 1
         \<and> invalid (snd (validate_answer st answer intent evidence)) = invalid st
      else valid (snd (validate_answer st answer intent evidence)) = valid st
         \<and> invalid (snd (validate_answer st answer intent evidence)) = invalid st + 1)"
  by (simp add: stats_invariant_def init_stats_def validate_answer_def Let_def)

theorem validate_answer_stats_witness:
  "stats_invariant init_stats
   \<and> stats_invariant (snd (validate_answer init_stats ''Short'' (Some ''FAQ'') []))
   \<and> total (snd (validate_answer init_stats ''Short'' (Some ''FAQ'') [])) = 1
   \<and> valid (snd (validate_answer init_stats ''Short'' (Some ''FAQ'') [])) = 0
   \<and> invalid (snd (validate_answer init_stats ''Short'' (Some ''FAQ'') [])) = 1"
  using validate_answer_stats [of init_stats "''Short''" "Some ''FAQ''" "[]"]
  by (simp add: init_stats_def validate_answer_def answer_warnings_def Let_def)

section \<open>SafetyGuardrails: sensitive topics and PII\<close>

text \<open>
  \<open>re.sub(r, repl, s)\<close>: the subject is scanned from the left; where the pattern matches,
  the match reported by \<open>re\<close> is replaced and the scan goes on after it; elsewhere the
  character is copied.  The four PII patterns consume at least one character wherever
  they match, so a match that consumes nothing, which Python treats on its own, does not
  arise; the model copies the character there.
\<close>

function rx_sub :: "rx \<Rightarrow> string \<Rightarrow> char option \<Rightarrow> string \<Rightarrow> string" where
  "rx_sub r repl pv [] = []"
| "rx_sub r repl pv (c # cs) =
     (if rx_all r (pv, c # cs) \<noteq> [] \<and> length (snd (hd (rx_all r (pv, c # cs)))) < length (c # cs)
      then repl @ rx_sub r repl (fst (hd (rx_all r (pv, c # cs)))) (snd (hd (rx_all r (pv, c # cs))))
      else c # rx_sub r repl (Some c) cs)"
  by pat_completeness auto
termination
  by (relation "measure (\<lambda>(r, repl, pv, s). length s)") (auto simp: split_beta)

definition re_sub :: "rx \<Rightarrow> string \<Rightarrow> string \<Rightarrow> string" where
  "re_sub r repl s = rx_sub r repl None s"

definition one_of :: "string \<Rightarrow> char \<Rightarrow> bool" where
  "one_of cs c = (c \<in> set cs)"

definition email_local :: "char \<Rightarrow> bool" where
  "email_local c = (is_AZ c \<or> is_az c \<or> is_digit c \<or> one_of ''._%+-'' c)"

definition email_domain :: "char \<Rightarrow> bool" where
  "email_domain c = (is_AZ c \<or> is_az c \<or> is_digit c \<or> one_of ''.-'' c)"

definition email_tld :: "char \<Rightarrow> bool" where
  "email_tld c = (is_AZ c \<or> one_of ''|'' c \<or> is_az c)"

definition dash_or_space :: "char \<Rightarrow> bool" where
  "dash_or_space c = (c = CHR ''-'' \<or> is_space c)"

text \<open>
  \<^verbatim>\<open>\b[A-Za-z0-9._%+-]+@[A-Za-z0-9.-]+\.[A-Z|a-z]{2,}\b\<close>
\<close>

definition rx_email :: rx where
  "rx_email = cats [Bnd, Rep 1 None email_local, Lit CHR ''@'', Rep 1 None email_domain,
     Lit CHR ''.'', Rep 2 None email_tld, Bnd]"

text \<open>
  \<^verbatim>\<open>\b(?:\+?1[-.]?)?\(?([0-9]{3})\)?[-. ]?([0-9]{3})[-. ]?([0-9]{4})\b\<close>
\<close>

definition rx_phone :: rx where
  "rx_phone = cats [Bnd,
     Opt (cats [Opt (Lit CHR ''+''), Lit CHR ''1'', Opt (Cls (one_of ''-.''))]),
     Opt (Lit CHR ''(''), Rep 3 (Some 3) is_digit, Opt (Lit CHR '')''),
     Opt (Cls (one_of ''-. '')), Rep 3 (Some 3) is_digit,
     Opt (Cls (one_of ''-. '')), Rep 4 (Some 4) is_digit, Bnd]"

text \<open>
  \<^verbatim>\<open>\b\d{3}-\d{2}-\d{4}\b\<close>
\<close>

definition rx_ssn :: rx where
  "rx_ssn = cats [Bnd, Rep 3 (Some 3) is_digit, Lit CHR ''-'', Rep 2 (Some 2) is_digit,
     Lit CHR ''-'', Rep 4 (Some 4) is_digit, Bnd]"

text \<open>
  \<^verbatim>\<open>\b\d{4}[-\s]?\d{4}[-\s]?\d{4}[-\s]?\d{4}\b\<close>
\<close>

definition rx_credit_card :: rx where
  "rx_credit_card = cats [Bnd, Rep 4 (Some 4) is_digit, Opt (Cls dash_or_space),
     Rep 4 (Some 4) is_digit, Opt (Cls dash_or_space), Rep 4 (Some 4) is_digit,
     Opt (Cls dash_or_space), Rep 4 (Some 4) is_digit, Bnd]"

definition pii_patterns :: "(string \<times> rx) list" where
  "pii_patterns = [(''email'', rx_email), (''phone'', rx_phone), (''ssn'', rx_ssn),
     (''credit_card'', rx_credit_card)]"

definition placeholder :: "string \<Rightarrow> string" where
  "placeholder pii_type = ''[REDACTED_'' @ upper pii_type @ '']''"

record pii_check =
  has_pii :: bool
  pii_types :: "string list"
  redacted_text :: string
  original_text :: string

text \<open>
  One round of the loop of \<open>check_pii_exposure\<close>: the pattern is looked for in the
  original query, and replaced in the text redacted so far.
\<close>

definition pii_step :: "string \<Rightarrow> string list \<times> string \<Rightarrow> string \<times> rx \<Rightarrow> string list \<times> string" where
  "pii_step q acc p =
     (if re_search (snd p) q
      then (fst acc @ [fst p], re_sub (snd p) (placeholder (fst p)) (snd acc))
      else acc)"

definition check_pii_exposure :: "string \<Rightarrow> pii_check" where
  "check_pii_exposure q =
     (let r = foldl (pii_step q) ([], q) pii_patterns
      in \<lparr> has_pii = (length (fst r) > 0), pii_types = fst r, redacted_text = snd r,
           original_text = q \<rparr>)"

definition sensitive_topics :: "(string \<times> string list) list" where
  "sensitive_topics =
     [(''billing_dispute'', [''refund'', ''charge'', ''billing error'', ''unauthorized charge'']),
      (''account_termination'', [''cancel subscription'', ''close account'', ''delete account'']),
      (''data_breach'', [''breach'', ''hacked'', ''compromised'', ''data leak'']),
      (''legal'', [''lawsuit'', ''lawyer'', ''legal action'', ''sue''])]"

record sensitivity =
  is_sensitive :: bool
  matched_topics :: "string list"
  should_escalate :: bool

text \<open>
  \<open>check_sensitive_content\<close> returns \<open>list(set(matched_topics))\<close>.  The order in which
  Python enumerates a set of strings varies from process to process, so the model takes
  the enumeration as a parameter \<open>set_order\<close>.
\<close>

definition topics_in :: "string \<Rightarrow> string list" where
  "topics_in q =
     map fst (filter (\<lambda>tk. list_ex (\<lambda>keyword. contains keyword (lower q)) (snd tk))
       sensitive_topics)"

definition check_sensitive_content :: "(string list \<Rightarrow> string list) \<Rightarrow> string \<Rightarrow> sensitivity" where
  "check_sensitive_content set_order q =
     \<lparr> is_sensitive = (length (topics_in q) > 0),
       matched_topics = set_order (topics_in q),
       should_escalate = (length (topics_in q) > 0 \<and>
          list_ex (\<lambda>topic. topic \<in> set [''legal'', ''data_breach'']) (topics_in q)) \<rparr>"

section \<open>The state of a query and the first two stages\<close>

record assistant_state =
  history :: "string list"
  intent :: "string option"
  query :: string
  answer :: "string option"
  evidence :: "string list"
  errors :: "string list"
  account_context :: "string option"

definition safety_check_node ::
  "(string list \<Rightarrow> string list) \<Rightarrow> assistant_state \<Rightarrow> assistant_state" where
  "safety_check_node set_order st =
     (let q = query st;
          sc = check_sensitive_content set_order q;
          st1 = (if is_sensitive sc \<and> should_escalate sc
                 then st\<lparr> intent := Some ''Escalation'',
                          evidence := evidence st
                            @ [''safety:sensitive_topic_detected:'' @ join '','' (matched_topics sc)] \<rparr>
                 else st);
          pc = check_pii_exposure q
      in if has_pii pc
         then st1\<lparr> query := redacted_text pc,
                   evidence := evidence st1 @ [''safety:pii_redacted:'' @ join '','' (pii_types pc)] \<rparr>
         else st1)"

text \<open>
  The classification oracle answers with a text or fails with an exception, whose
  message is the \<open>Inl\<close> value.
\<close>

definition router_node :: "(string \<Rightarrow> string + string) \<Rightarrow> assistant_state \<Rightarrow> assistant_state" where
  "router_node classify st =
     (case classify (query st) of
        Inr result \<Rightarrow>
          st\<lparr> intent := Some (if strip result \<in> set [''FAQ'', ''DataLookup'', ''Escalation'']
                               then strip result else ''Escalation'') \<rparr>
      | Inl e \<Rightarrow>
          st\<lparr> errors := errors st @ [''Router error: '' @ e], intent := Some ''Escalation'' \<rparr>)"

definition initial_state :: "string \<Rightarrow> string option \<Rightarrow> assistant_state" where
  "initial_state q ctx =
     \<lparr> history = [], intent = None, query = q, answer = None, evidence = [], errors = [],
       account_context = ctx \<rparr>"

section \<open>Tool dispatch\<close>

definition truthy :: "string option \<Rightarrow> bool" where
  "truthy x = (case x of None \<Rightarrow> False | Some v \<Rightarrow> v \<noteq> [])"

definition str_opt :: "string option \<Rightarrow> string" where
  "str_opt x = (case x of None \<Rightarrow> ''None'' | Some v \<Rightarrow> v)"

text \<open>\<open>s.zfill(width)\<close>: zeros are put after a leading sign.\<close>

definition zfill :: "nat \<Rightarrow> string \<Rightarrow> string" where
  "zfill width s =
     (if s \<noteq> [] \<and> (hd s = CHR ''+'' \<or> hd s = CHR ''-'')
      then hd s # replicate (width - length s) CHR ''0'' @ tl s
      else replicate (width - length s) CHR ''0'' @ s)"

text \<open>
  \<open>re.search(r"Company[_\s](\d+)", query, re.I)\<close>: the digits of group 1 at the leftmost
  match, if there is one.
\<close>

fun search_company :: "string \<Rightarrow> string option" where
  "search_company [] = None"
| "search_company (c # cs) =
     (if lower (take 7 (c # cs)) = ''company'' \<and> 8 < length (c # cs)
         \<and> ((c # cs) ! 7 = CHR ''_'' \<or> is_space ((c # cs) ! 7)) \<and> is_digit ((c # cs) ! 8)
      then Some (takeWhile is_digit (drop 8 (c # cs)))
      else search_company cs)"

text \<open>The loop over \<open>query.split()\<close> that looks for an account id or a company.\<close>

fun scan_words :: "string \<Rightarrow> string list \<Rightarrow> (string \<times> params) list" where
  "scan_words q [] = []"
| "scan_words q (word # ws) =
     (if prefix ''A'' word \<and> isdigit (drop 1 word)
      then [(''account_lookup'', [(''account_id'', PStr word)])]
      else if contains ''company'' (lower q)
      then (case search_company q of
              Some digits \<Rightarrow> [(''account_lookup'', [(''company'', PStr (''Company_'' @ zfill 3 digits))])]
            | None \<Rightarrow> scan_words q ws)
      else scan_words q ws)"

definition invoice_calls :: "string \<Rightarrow> string option \<Rightarrow> (string \<times> params) list" where
  "invoice_calls q ctx =
     (if (contains ''invoice'' (lower q) \<or> contains ''payment'' (lower q) \<or> contains ''billing'' (lower q))
         \<and> truthy ctx
      then [(''invoice_status'',
             [(''account_id'', PStr (the ctx))]
             @ (if contains ''2025-10'' q \<or> contains ''october'' (lower q)
                then [(''period'', PStr ''2025-10'')]
                else if contains ''2025-09'' q \<or> contains ''september'' (lower q)
                then [(''period'', PStr ''2025-09'')]
                else []))]
      else [])"

definition ticket_calls :: "string \<Rightarrow> string option \<Rightarrow> (string \<times> params) list" where
  "ticket_calls q ctx =
     (if (contains ''ticket'' (lower q) \<or> contains ''support'' (lower q)) \<and> truthy ctx
      then [(''ticket_summary'', [(''account_id'', PStr (the ctx))])]
      else [])"

definition usage_calls :: "string \<Rightarrow> string option \<Rightarrow> (string \<times> params) list" where
  "usage_calls q ctx =
     (if (contains ''usage'' (lower q) \<or> contains ''api'' (lower q) \<or> contains ''storage'' (lower q))
         \<and> truthy ctx
      then [(''usage_report'',
             [(''account_id'', PStr (the ctx)),
              (''month'', PStr (if contains ''2025-09'' q \<or> contains ''september'' (lower q)
                                then ''2025-09''
                                else if contains ''2025-08'' q \<or> contains ''august'' (lower q)
                                then ''2025-08''
                                else ''2025-10''))])]
      else [])"

definition account_calls :: "string \<Rightarrow> string option \<Rightarrow> (string \<times> params) list" where
  "account_calls q ctx =
     (if contains ''account'' (lower q) \<or> contains ''plan'' (lower q) \<or> contains ''tier'' (lower q)
      then (if truthy ctx then [(''account_lookup'', [(''account_id'', PStr (the ctx))])]
            else scan_words q (split q))
      else [])"

definition determine_tool_calls :: "string \<Rightarrow> string option \<Rightarrow> (string \<times> params) list" where
  "determine_tool_calls q ctx =
     (let tools = invoice_calls q ctx @ ticket_calls q ctx @ usage_calls q ctx @ account_calls q ctx
      in if tools = [] \<and> truthy ctx
         then tools @ [(''account_lookup'', [(''account_id'', PStr (the ctx))])]
         else tools)"

text \<open>
  \<open>repr\<close> of a string and \<open>str\<close> of a list of strings, which is what an f-string makes
  of \<open>list(params.keys())\<close>.
\<close>

definition printable :: "char \<Rightarrow> bool" where
  "printable c = ((32 \<le> code c \<and> code c \<le> 126) \<or> (161 \<le> code c \<and> code c \<noteq> 173))"

definition hex_escape :: "char \<Rightarrow> string" where
  "hex_escape c = [CHR 0x5C, CHR ''x'', ''0123456789abcdef'' ! (code c div 16),
     ''0123456789abcdef'' ! (code c mod 16)]"

definition repr_char :: "char \<Rightarrow> char \<Rightarrow> string" where
  "repr_char quote c =
     (if c = CHR 0x5C \<or> c = quote then [CHR 0x5C, c]
      else if c = CHR 0x09 then [CHR 0x5C, CHR ''t'']
      else if c = CHR 0x0A then [CHR 0x5C, CHR ''n'']
      else if c = CHR 0x0D then [CHR 0x5C, CHR ''r'']
      else if \<not> printable c then hex_escape c
      else [c])"

definition repr :: "string \<Rightarrow> string" where
  "repr s =
     (let quote = (if CHR 0x27 \<in> set s \<and> CHR 0x22 \<notin> set s then CHR 0x22 else CHR 0x27)
      in quote # concat (map (repr_char quote) s) @ [quote])"

definition str_list :: "string list \<Rightarrow> string" where
  "str_list xs = ''['' @ join '', '' (map repr xs) @ '']''"

text \<open>
  The result of a tool: an error dictionary with its optional explanation, or the JSON
  document of the server, whose type is left open.
\<close>

datatype 'j tool_result = ErrorResult string "string option" | Json 'j

text \<open>
  The collaborators of the pipeline.  An oracle or the retriever answers (\<open>Inr\<close>) or
  raises an exception with a message (\<open>Inl\<close>).  \<open>post_tool\<close> is the HTTP request of
  \<open>call_mcp_tool\<close>, which catches every exception of the request and returns an error
  dictionary instead.  \<open>format_tool_results\<close> renders the collected results with
  floating-point formats and may raise on a document of another shape.  \<open>error_text\<close>
  is \<open>str(e)\<close> of an exception raised by the interpreter, and \<open>set_order\<close> the
  enumeration order of a set.
\<close>

record 'j collaborators =
  classify :: "string \<Rightarrow> string + string"
  retrieve :: "string \<Rightarrow> string + (string \<times> string) list"
  justify :: "string \<Rightarrow> string \<Rightarrow> string + string"
  synthesize :: "string option \<Rightarrow> string \<Rightarrow> string + string"
  post_tool :: "string \<Rightarrow> params \<Rightarrow> 'j tool_result"
  format_tool_results :: "(string \<times> params \<times> 'j tool_result) list \<Rightarrow> string + string"
  error_text :: "py_error \<Rightarrow> string"
  set_order :: "string list \<Rightarrow> string list"

definition call_mcp_tool ::
  "(string \<Rightarrow> params \<Rightarrow> 'j tool_result) \<Rightarrow> string \<Rightarrow> params \<Rightarrow> 'j tool_result" where
  "call_mcp_tool post tool_name ps =
     (if tool_name \<notin> set AVAILABLE_TOOLS
      then ErrorResult (''Unknown tool: '' @ tool_name)
             (Some (''Available tools: '' @ join '', '' AVAILABLE_TOOLS))
      else post tool_name ps)"

definition tool_tag :: "string \<Rightarrow> params \<Rightarrow> string" where
  "tool_tag tool_name ps = ''tool:'' @ tool_name @ '':'' @ str_list (keys ps)"

text \<open>
  The loop over the candidates.  It returns the exception that stopped it, if any,
  with the evidence and the results collected until then.
\<close>

fun run_tools ::
  "(string \<Rightarrow> params \<Rightarrow> 'j tool_result) \<Rightarrow> (string \<times> params) list \<Rightarrow> string list
   \<Rightarrow> (string \<times> params \<times> 'j tool_result) list
   \<Rightarrow> py_error option \<times> string list \<times> (string \<times> params \<times> 'j tool_result) list" where
  "run_tools post [] ev results = (None, ev, results)"
| "run_tools post (call # calls) ev results =
     (case validate_tool_params (fst call) (snd call) of
        Inl e \<Rightarrow> (Some e, ev, results)
      | Inr v \<Rightarrow>
          if \<not> is_valid v
          then run_tools post calls ev
                 (results @ [(fst call, snd call,
                    ErrorResult (''Invalid parameters: '' @ join '', '' (validation.errors v)) None)])
          else run_tools post calls (ev @ [tool_tag (fst call) (snd call)])
                 (results @ [(fst call, snd call, call_mcp_tool post (fst call) (snd call))]))"

definition tools_failed :: "string \<Rightarrow> assistant_state \<Rightarrow> assistant_state" where
  "tools_failed e st =
     st\<lparr> errors := errors st @ [''Tools error: '' @ e],
         answer := Some ''Unable to retrieve data. Please verify account information.'' \<rparr>"

definition tools_node :: "'j collaborators \<Rightarrow> assistant_state \<Rightarrow> assistant_state" where
  "tools_node C st =
     (case justify C (query st)
             (if truthy (account_context st) then the (account_context st) else ''None specified'') of
        Inl e \<Rightarrow> tools_failed e st
      | Inr justification \<Rightarrow>
          (let r = run_tools (post_tool C) (determine_tool_calls (query st) (account_context st))
                     (evidence st @ [''tool_justification:'' @ take 100 justification]) [];
               st1 = st\<lparr> evidence := fst (snd r) \<rparr>
           in case fst r of
                Some e \<Rightarrow> tools_failed (error_text C e) st1
              | None \<Rightarrow>
                  (case format_tool_results C (snd (snd r)) of
                     Inl e \<Rightarrow> tools_failed e st1
                   | Inr text \<Rightarrow> st1\<lparr> answer := Some text \<rparr>)))"

section \<open>Retrieval, synthesis, escalation and validation\<close>

fun show_nat :: "nat \<Rightarrow> string" where
  "show_nat n =
     (if n < 10 then [''0123456789'' ! n]
      else show_nat (n div 10) @ [''0123456789'' ! (n mod 10)])"

text \<open>
  A retrieved document is its content and the file name of its source.
  \<open>format_results\<close> numbers the documents from 1.
\<close>

definition format_context :: "(string \<times> string) list \<Rightarrow> string" where
  "format_context docs =
     join [NL, NL]
       (map (\<lambda>(i, d). ''[Document '' @ show_nat i @ '' - '' @ snd d @ '']'' @ [NL] @ fst d)
          (zip [1 ..< Suc (length docs)] docs))"

definition retrieve_node :: "'j collaborators \<Rightarrow> assistant_state \<Rightarrow> assistant_state" where
  "retrieve_node C st =
     (case retrieve C (query st) of
        Inr docs \<Rightarrow>
          st\<lparr> evidence := evidence st @ map (\<lambda>d. ''doc:'' @ snd d) docs,
              answer := Some (format_context docs) \<rparr>
      | Inl e \<Rightarrow>
          st\<lparr> errors := errors st @ [''Retrieval error: '' @ e],
              answer := Some ''Knowledge base retrieval failed. Please try rephrasing your question.'' \<rparr>)"

definition evidence_section :: "assistant_state \<Rightarrow> assistant_state" where
  "evidence_section st =
     st\<lparr> answer := Some (str_opt (answer st) @ [NL, NL] @ ''**Evidence:**'' @ [NL]
            @ join [NL] (map (\<lambda>e. ''- '' @ e) (evidence st))) \<rparr>"

definition synthesize_node :: "'j collaborators \<Rightarrow> assistant_state \<Rightarrow> assistant_state" where
  "synthesize_node C st =
     (if intent st = Some ''FAQ''
      then (case synthesize C (answer st) (query st) of
              Inr text \<Rightarrow> evidence_section (st\<lparr> answer := Some text \<rparr>)
            | Inl e \<Rightarrow> st\<lparr> errors := errors st @ [''Synthesis error: '' @ e] \<rparr>)
      else evidence_section st)"

definition escalation_message :: "string \<Rightarrow> string" where
  "escalation_message q =
     join [NL]
       [[],
        ''I understand you need assistance with: '' @ [CHR 0x22] @ q @ [CHR 0x22],
        [],
        ''This request requires specialized support from our team. Here'' @ [CHR 0x27]
          @ ''s what you can do:'',
        [],
        ''**Immediate Actions:**'',
        ''- Email: support@novacrm.com'',
        ''- Phone: 1-800-NOVA-CRM'',
        ''- Submit a ticket through your account portal'',
        [],
        ''**What to Include:**'',
        ''- Your account ID or company name'',
        ''- Detailed description of your request'',
        ''- Any relevant dates or transaction IDs'',
        ''- Preferred contact method'',
        [],
        ''**Expected Response Time:**'',
        ''- High priority: 2 hours'',
        ''- Standard: 24 hours'',
        [],
        ''Our team will reach out shortly to assist you further.'',
        []]"

definition escalate_node :: "assistant_state \<Rightarrow> assistant_state" where
  "escalate_node st =
     st\<lparr> answer := Some (escalation_message (query st)),
         evidence := evidence st @ [''escalated:human_support_required''] \<rparr>"

text \<open>
  The validation stage is not guarded by an exception handler: an answer that is still
  \<open>None\<close> makes \<open>re.search\<close> in \<open>validate_answer\<close> raise TypeError.
\<close>

definition validate_node :: "stats \<Rightarrow> assistant_state \<Rightarrow> py_error + assistant_state \<times> stats" where
  "validate_node vs st =
     (case answer st of
        None \<Rightarrow> Inl TypeError
      | Some a \<Rightarrow>
          (let v = validate_answer vs a (intent st) (evidence st);
               st1 = (if \<not> answer_is_valid (fst v)
                      then st\<lparr> errors := errors st @ warnings (fst v),
                               answer := Some (a @ [NL, NL]
                                 @ ''*Note: This response may be incomplete. Please contact support for assistance.*'') \<rparr>
                      else st);
               ew = validate_evidence (evidence st);
               st2 = (if length ew \<noteq> 0 then st1\<lparr> errors := errors st1 @ ew \<rparr> else st1);
               st3 = (if \<not> check_intent_answer_match (intent st) a (evidence st)
                      then st2\<lparr> errors := errors st2 @ [''Answer-intent mismatch detected''] \<rparr>
                      else st2)
           in Inr (st3\<lparr> answer := Some (sanitize_output (str_opt (answer st3))) \<rparr>, snd v)))"

section \<open>The pipeline\<close>

record pipeline_result =
  result_query :: string
  result_intent :: "string option"
  result_answer :: "string option"
  result_evidence :: "string list"
  result_errors :: "string list"

definition result_of :: "assistant_state \<Rightarrow> pipeline_result" where
  "result_of st =
     \<lparr> result_query = query st, result_intent = intent st, result_answer = answer st,
       result_evidence = evidence st, result_errors = errors st \<rparr>"

text \<open>
  \<open>invoke\<close> runs the graph: safety check, router, then the branch chosen by the intent.
  An intent that names no branch is an error of the graph.  The statistics of the
  validator outlive the call.
\<close>

definition invoke ::
  "'j collaborators \<Rightarrow> stats \<Rightarrow> string \<Rightarrow> string option \<Rightarrow> py_error + pipeline_result \<times> stats" where
  "invoke C vs q ctx =
     (let st = router_node (classify C) (safety_check_node (set_order C) (initial_state q ctx))
      in if intent st = Some ''FAQ''
         then (case validate_node vs (synthesize_node C (retrieve_node C st)) of
                 Inl e \<Rightarrow> Inl e | Inr r \<Rightarrow> Inr (result_of (fst r), snd r))
         else if intent st = Some ''DataLookup''
         then (case validate_node vs (synthesize_node C (tools_node C st)) of
                 Inl e \<Rightarrow> Inl e | Inr r \<Rightarrow> Inr (result_of (fst r), snd r))
         else if intent st = Some ''Escalation''
         then Inr (result_of (escalate_node st), vs)
         else Inl KeyError)"

text \<open>An oracle that answers every query with the same text.\<close>

definition answers :: "string \<Rightarrow> string \<Rightarrow> string + string" where
  "answers text q = Inr text"

section \<open>Safety check and router: the claims\<close>

text \<open>
  C2, as stated, fails: a query that is sensitive but matches neither \<open>legal\<close> nor
  \<open>data_breach\<close> gets no tag and no intent.  The query "I need a refund" matches
  \<open>billing_dispute\<close> only.
\<close>

theorem sensitive_without_escalation_counterexample:
  "is_sensitive (check_sensitive_content remdups ''I need a refund'')
   \<and> intent (safety_check_node remdups (initial_state ''I need a refund'' None)) = None
   \<and> evidence (safety_check_node remdups (initial_state ''I need a refund'' None)) = []"
  by code_simp

text \<open>
  C2, amended.  The safety-check stage sets the intent to Escalation and appends the tag
  \<open>safety:sensitive_topic_detected:<comma-joined topics>\<close> exactly for the queries whose
  matched topics include \<open>legal\<close> or \<open>data_breach\<close>; for every other query, sensitive or
  not, it leaves the intent as it was and appends no such tag.  The PII tag, if any,
  follows.
\<close>

theorem safety_check_escalation:
  "should_escalate (check_sensitive_content ord (query st))
     = (''legal'' \<in> set (topics_in (query st)) \<or> ''data_breach'' \<in> set (topics_in (query st)))
   \<and> intent (safety_check_node ord st)
     = (if should_escalate (check_sensitive_content ord (query st))
        then Some ''Escalation'' else intent st)
   \<and> evidence (safety_check_node ord st)
     = evidence st
       @ (if should_escalate (check_sensitive_content ord (query st))
          then [''safety:sensitive_topic_detected:'' @ join '','' (ord (topics_in (query st)))]
          else [])
       @ (if has_pii (check_pii_exposure (query st))
          then [''safety:pii_redacted:'' @ join '','' (pii_types (check_pii_exposure (query st)))]
          else [])"
  by (auto simp add: safety_check_node_def check_sensitive_content_def Let_def list_ex_iff)

theorem safety_check_escalation_witness:
  "intent (safety_check_node remdups (initial_state ''I am planning legal action'' None))
     = Some ''Escalation''
   \<and> evidence (safety_check_node remdups (initial_state ''I am planning legal action'' None))
     = [''safety:sensitive_topic_detected:legal'']"
proof -
  have q: "query (initial_state ''I am planning legal action'' None) = ''I am planning legal action''"
    by (simp add: initial_state_def)
  have e: "evidence (initial_state ''I am planning legal action'' None) = []"
    by (simp add: initial_state_def)
  have t: "topics_in ''I am planning legal action'' = [''legal'']"
    by code_simp
  have p: "\<not> has_pii (check_pii_exposure ''I am planning legal action'')"
    by code_simp
  show ?thesis
    using safety_check_escalation [of remdups "initial_state ''I am planning legal action'' None"]
    by (simp add: q e t p)
qed

text \<open>
  C3, as stated, fails: the router strips the oracle's text before it compares.  The
  text "FAQ" followed by a newline is none of the three tokens, and the intent is FAQ,
  not Escalation.
\<close>

theorem router_strips_text_counterexample:
  "''FAQ'' @ [NL] \<notin> set [''FAQ'', ''DataLookup'', ''Escalation'']
   \<and> intent (router_node (answers (''FAQ'' @ [NL])) (initial_state ''How do I configure SSO?'' None))
     = Some ''FAQ''"
  by (simp add: router_node_def answers_def initial_state_def strip_def is_space_def code_def NL_def)

text \<open>
  C3, amended.  After the router stage, the intent is the oracle's text stripped of
  surrounding whitespace if the stripped text is one of FAQ, DataLookup and Escalation,
  and Escalation otherwise; when the oracle fails, the intent is Escalation and the error
  \<open>Router error: <message>\<close> is appended, otherwise the errors are unchanged.  The result
  does not depend on the intent the safety check had set.
\<close>

theorem router_node_intent:
  "intent (router_node oracle st)
     = Some (case oracle (query st) of
               Inr result \<Rightarrow>
                 if strip result \<in> set [''FAQ'', ''DataLookup'', ''Escalation'']
                 then strip result else ''Escalation''
             | Inl e \<Rightarrow> ''Escalation'')
   \<and> errors (router_node oracle st)
     = errors st @ (case oracle (query st) of Inr result \<Rightarrow> [] | Inl e \<Rightarrow> [''Router error: '' @ e])
   \<and> intent (router_node oracle (st\<lparr> intent := i \<rparr>)) = intent (router_node oracle st)"
  by (simp add: router_node_def split: sum.splits)

theorem router_node_intent_witness:
  "intent (router_node (answers ('' DataLookup'' @ [NL]))
     ((initial_state ''Show my invoices'' (Some ''A001''))\<lparr> intent := Some ''Escalation'' \<rparr>))
   = Some ''DataLookup''"
  using router_node_intent [of "answers ('' DataLookup'' @ [NL])"
      "(initial_state ''Show my invoices'' (Some ''A001''))\<lparr> intent := Some ''Escalation'' \<rparr>"]
  by (simp add: answers_def strip_def is_space_def code_def NL_def)

section \<open>Tool dispatch: the claims\<close>

text \<open>
  The collaborators of the examples: the classification oracle answers DataLookup, the
  justification oracle answers, the retriever and the synthesis oracle fail, and every
  tool request returns an empty document.
\<close>

definition demo_collaborators :: "unit collaborators" where
  "demo_collaborators =
     \<lparr> classify = answers ''DataLookup'',
       retrieve = (\<lambda>q. Inl ''index not found''),
       justify = (\<lambda>q ctx. Inr ''needed''),
       synthesize = (\<lambda>ctx q. Inl ''timeout''),
       post_tool = (\<lambda>tool_name ps. Json ()),
       format_tool_results = (\<lambda>results. Inr ''formatted''),
       error_text = (\<lambda>e. ''error''),
       set_order = remdups \<rparr>"

text \<open>
  C5.  The tag that the tool stage appends for an invoked candidate is
  \<open>tool:<toolName>:\<close> followed by Python's rendering of the list of parameter names,
  with brackets and quotes, not by the comma-joined names: for \<open>usage_report\<close> with
  \<open>account_id\<close> and \<open>month\<close> the tag is \<^verbatim>\<open>tool:usage_report:['account_id', 'month']\<close>.
\<close>

theorem tools_node_tag_is_list_rendering:
  "evidence (tools_node demo_collaborators (initial_state ''Show usage'' (Some ''A001'')))
   = [''tool_justification:needed'',
      ''tool:usage_report:['' @ [CHR 0x27] @ ''account_id'' @ [CHR 0x27] @ '', ''
        @ [CHR 0x27] @ ''month'' @ [CHR 0x27] @ '']'']"
  by code_simp

theorem tools_node_tag_is_list_rendering_witness:
  "last (evidence (tools_node demo_collaborators (initial_state ''Show usage'' (Some ''A001''))))
   \<noteq> ''tool:usage_report:account_id,month''"
  using tools_node_tag_is_list_rendering by simp

text \<open>
  C6, as stated, fails: the query "Show data for A007 please" mentions none of account,
  plan and tier, so it is never scanned for an account id, and without an account
  context no candidate is derived.
\<close>

theorem no_lookup_without_keyword_counterexample:
  "(''account_lookup'', [(''account_id'', PStr ''A007'')])
   \<notin> set (determine_tool_calls ''Show data for A007 please'' None)"
  by code_simp

text \<open>
  C6, amended.  Tool-call derivation on the query "Show data for A007 please" with no
  account context produces no candidate; on "Show account data for A007 please", which
  mentions the account, it produces exactly the candidate \<open>account_lookup\<close> with
  \<open>{account_id: "A007"}\<close>.
\<close>

theorem account_id_needs_account_keyword:
  "determine_tool_calls ''Show data for A007 please'' None = []
   \<and> determine_tool_calls ''Show account data for A007 please'' None
     = [(''account_lookup'', [(''account_id'', PStr ''A007'')])]"
  by code_simp

theorem account_id_needs_account_keyword_witness:
  "length (determine_tool_calls ''Show data for A007 please'' None) = 0
   \<and> length (determine_tool_calls ''Show account data for A007 please'' None) = 1"
  using account_id_needs_account_keyword by simp

section \<open>The pipeline: the claim\<close>

lemma router_node_intent_cases:
  "intent (router_node oracle st) = Some ''FAQ''
   \<or> intent (router_node oracle st) = Some ''DataLookup''
   \<or> intent (router_node oracle st) = Some ''Escalation''"
  by (auto simp add: router_node_def split: sum.splits)

lemma retrieve_node_answer:
  "answer (retrieve_node C st) \<noteq> None \<and> intent (retrieve_node C st) = intent st"
  by (simp add: retrieve_node_def split: sum.splits)

lemma tools_node_answer:
  "answer (tools_node C st) \<noteq> None \<and> intent (tools_node C st) = intent st"
  by (simp add: tools_node_def tools_failed_def Let_def split: sum.splits option.splits)

lemma synthesize_node_answer:
  "answer st \<noteq> None \<Longrightarrow>
   answer (synthesize_node C st) \<noteq> None \<and> intent (synthesize_node C st) = intent st"
  by (simp add: synthesize_node_def evidence_section_def split: sum.splits)

lemma validate_node_returns:
  "answer st \<noteq> None \<Longrightarrow>
   \<exists>st' vs'. validate_node vs st = Inr (st', vs') \<and> answer st' \<noteq> None \<and> intent st' = intent st"
  by (auto simp add: validate_node_def Let_def)

text \<open>
  C4.  For every query, every account context, every state of the validator's statistics
  and every behaviour of the collaborators, failures included, \<open>invoke\<close> raises nothing
  and returns a result with its five fields, in which the intent and the answer are set.
\<close>

theorem invoke_never_raises:
  "\<exists>r vs'. invoke C vs q ctx = Inr (r, vs') \<and> result_intent r \<noteq> None \<and> result_answer r \<noteq> None"
proof -
  define st where "st = router_node (classify C) (safety_check_node (set_order C) (initial_state q ctx))"
  consider (faq) "intent st = Some ''FAQ''" | (lookup) "intent st = Some ''DataLookup''"
    | (esc) "intent st = Some ''Escalation''"
    unfolding st_def using router_node_intent_cases by blast
  then show ?thesis
  proof cases
    case faq
    have "answer (synthesize_node C (retrieve_node C st)) \<noteq> None"
      and i: "intent (synthesize_node C (retrieve_node C st)) = intent st"
      using retrieve_node_answer [of C st] synthesize_node_answer [of "retrieve_node C st" C]
      by simp_all
    then obtain st' vs' where "validate_node vs (synthesize_node C (retrieve_node C st)) = Inr (st', vs')"
      and "answer st' \<noteq> None" and "intent st' = intent (synthesize_node C (retrieve_node C st))"
      using validate_node_returns by blast
    with faq i show ?thesis
      by (simp add: invoke_def Let_def st_def [symmetric] result_of_def)
  next
    case lookup
    have "answer (synthesize_node C (tools_node C st)) \<noteq> None"
      and i: "intent (synthesize_node C (tools_node C st)) = intent st"
      using tools_node_answer [of C st] synthesize_node_answer [of "tools_node C st" C]
      by simp_all
    then obtain st' vs' where "validate_node vs (synthesize_node C (tools_node C st)) = Inr (st', vs')"
      and "answer st' \<noteq> None" and "intent st' = intent (synthesize_node C (tools_node C st))"
      using validate_node_returns by blast
    with lookup i show ?thesis
      by (simp add: invoke_def Let_def st_def [symmetric] result_of_def)
  next
    case esc
    then show ?thesis
      by (simp add: invoke_def Let_def st_def [symmetric] result_of_def escalate_node_def)
  qed
qed

text \<open>An instance in which every oracle and the retriever fail.\<close>

definition failing_collaborators :: "unit collaborators" where
  "failing_collaborators =
     \<lparr> classify = (\<lambda>q. Inl ''connection refused''),
       retrieve = (\<lambda>q. Inl ''index not found''),
       justify = (\<lambda>q ctx. Inl ''timeout''),
       synthesize = (\<lambda>ctx q. Inl ''timeout''),
       post_tool = (\<lambda>tool_name ps. ErrorResult ''MCP server not reachable'' None),
       format_tool_results = (\<lambda>results. Inl ''bad format''),
       error_text = (\<lambda>e. ''error''),
       set_order = remdups \<rparr>"

theorem invoke_never_raises_witness:
  "\<exists>r vs'. invoke failing_collaborators init_stats ''What plan is account A001 on?'' (Some ''A001'')
     = Inr (r, vs') \<and> result_intent r \<noteq> None \<and> result_answer r \<noteq> None"
  using invoke_never_raises [of failing_collaborators init_stats
      "''What plan is account A001 on?''" "Some ''A001''"]
  by simp

section \<open>Output sanitising: the claim\<close>

text \<open>
  \<open>sub in s\<close> is the contiguous-sublist relation.  A replacement whose new text does not
  contain the first character of a pattern, and whose first character does not occur in
  the rest of the pattern, creates no occurrence of the pattern; so after the two
  replacements and the collapsing of newlines none of the three patterns is left, and
  stripping removes only from the ends.
\<close>

lemma contains_sublist: "contains sub s = sublist sub s"
  by (induction s) (auto simp add: sublist_Cons_right)

lemma replace_absent: "\<not> sublist old s \<Longrightarrow> replace old new s = s"
proof (induction s)
  case Nil
  then show ?case by simp
next
  case (Cons c cs)
  then have "\<not> prefix old (c # cs)" and "\<not> sublist old cs"
    by (auto simp add: sublist_Cons_right)
  with Cons show ?case by simp
qed

lemma replace_copied_prefix:
  "replace old new t = u @ r \<Longrightarrow> new \<noteq> [] \<Longrightarrow> hd new \<notin> set u \<Longrightarrow>
   \<exists>t'. t = u @ t' \<and> replace old new t' = r"
proof (induction u arbitrary: t)
  case Nil
  then show ?case by simp
next
  case (Cons a u)
  show ?case
  proof (cases t)
    case Nil
    with Cons.prems show ?thesis by simp
  next
    case (Cons c cs)
    show ?thesis
    proof (cases "old \<noteq> [] \<and> prefix old (c # cs)")
      case True
      with Cons Cons.prems(1) have "new @ replace old new (drop (length old) (c # cs)) = a # u @ r"
        by simp
      with Cons.prems(2) have "hd new = a" by (cases new) auto
      with Cons.prems(3) show ?thesis by simp
    next
      case False
      with Cons Cons.prems(1) have "c = a" and "replace old new cs = u @ r" by auto
      moreover from Cons.prems(3) have "hd new \<notin> set u" by simp
      ultimately obtain t' where "cs = u @ t'" and "replace old new t' = r"
        using Cons.IH Cons.prems(2) by blast
      with \<open>c = a\<close> Cons show ?thesis by simp
    qed
  qed
qed

lemma sublist_skip_foreign:
  "sublist X (ys @ R) \<Longrightarrow> X \<noteq> [] \<Longrightarrow> hd X \<notin> set ys \<Longrightarrow> sublist X R"
proof (induction ys)
  case Nil
  then show ?case by simp
next
  case (Cons y ys)
  from Cons.prems have "\<not> prefix X (y # ys @ R)"
    by (cases X) auto
  with Cons show ?case by (auto simp add: sublist_Cons_right)
qed

lemma replace_no_new_occurrence:
  "sublist X (replace old new s) \<Longrightarrow> X \<noteq> [] \<Longrightarrow> new \<noteq> [] \<Longrightarrow> hd X \<notin> set new \<Longrightarrow>
   hd new \<notin> set (tl X) \<Longrightarrow> sublist X s"
proof (induction old new s rule: replace.induct)
  case (1 old new)
  then show ?case by simp
next
  case (2 old new c cs)
  show ?case
  proof (cases "old \<noteq> [] \<and> prefix old (c # cs)")
    case True
    with 2 have "sublist X (new @ replace old new (drop (length old) (c # cs)))" by simp
    with 2 have "sublist X (replace old new (drop (length old) (c # cs)))"
      using sublist_skip_foreign by blast
    with True 2 have "sublist X (drop (length old) (c # cs))" by blast
    moreover have "sublist (drop (length old) (c # cs)) (c # cs)" by (rule sublist_drop)
    ultimately show ?thesis using sublist_order.order_trans by blast
  next
    case False
    with 2 have "sublist X (c # replace old new cs)" by auto
    then consider (here) "prefix X (c # replace old new cs)" | (later) "sublist X (replace old new cs)"
      by (auto simp add: sublist_Cons_right)
    then show ?thesis
    proof cases
      case here
      with 2(4) obtain X' r where X: "X = c # X'" and r: "replace old new cs = X' @ r"
        by (cases X) (auto simp add: prefix_def)
      with 2(7) have "hd new \<notin> set X'" by simp
      with r 2(5) obtain t' where "cs = X' @ t'" using replace_copied_prefix by blast
      with X show ?thesis by (simp add: sublist_Cons_right)
    next
      case later
      with False 2 have "sublist X cs" by blast
      then show ?thesis by (simp add: sublist_Cons_right)
    qed
  qed
qed

lemma replace_removes_old:
  "old \<noteq> [] \<Longrightarrow> new \<noteq> [] \<Longrightarrow> hd old \<notin> set new \<Longrightarrow> hd new \<notin> set (tl old) \<Longrightarrow>
   \<not> sublist old (replace old new s)"
proof (induction old new s rule: replace.induct)
  case (1 old new)
  then show ?case by simp
next
  case (2 old new c cs)
  show ?case
  proof (cases "old \<noteq> [] \<and> prefix old (c # cs)")
    case True
    with 2 have "\<not> sublist old (replace old new (drop (length old) (c # cs)))" by blast
    with 2(3,5) have "\<not> sublist old (new @ replace old new (drop (length old) (c # cs)))"
      using sublist_skip_foreign by blast
    with True show ?thesis by simp
  next
    case False
    with 2 have ih: "\<not> sublist old (replace old new cs)" by blast
    have "\<not> prefix old (c # replace old new cs)"
    proof
      assume "prefix old (c # replace old new cs)"
      with 2(3) obtain X' r where X: "old = c # X'" and r: "replace old new cs = X' @ r"
        by (cases old) (auto simp add: prefix_def)
      with 2(6) have "hd new \<notin> set X'" by simp
      with r 2(4) obtain t' where "cs = X' @ t'" using replace_copied_prefix by blast
      with X have "prefix old (c # cs)" by simp
      with False 2(3) show False by simp
    qed
    with ih False show ?thesis by (auto simp add: sublist_Cons_right)
  qed
qed

lemma collapse_newlines_done: "\<not> sublist [NL, NL, NL] (collapse_newlines s)"
proof (induction s rule: collapse_newlines.induct)
  case (1 s)
  then show ?case
    by (cases "contains [NL, NL, NL] s") (simp_all add: collapse_newlines.simps [of s] contains_sublist)
qed

lemma collapse_newlines_absent: "\<not> sublist [NL, NL, NL] s \<Longrightarrow> collapse_newlines s = s"
  by (simp add: collapse_newlines.simps [of s] contains_sublist)

lemma collapse_newlines_no_new_occurrence:
  "sublist X (collapse_newlines s) \<Longrightarrow> X \<noteq> [] \<Longrightarrow> hd X \<noteq> NL \<Longrightarrow> NL \<notin> set (tl X) \<Longrightarrow> sublist X s"
proof (induction s rule: collapse_newlines.induct)
  case (1 s)
  show ?case
  proof (cases "contains [NL, NL, NL] s")
    case True
    with 1 have "sublist X (replace [NL, NL, NL] [NL, NL] s)"
      by (simp add: collapse_newlines.simps [of s])
    moreover have "hd X \<notin> set [NL, NL]" using 1(4) by simp
    moreover have "hd [NL, NL] \<notin> set (tl X)" using 1(5) by simp
    ultimately show ?thesis
      using 1(3) replace_no_new_occurrence [of X "[NL, NL, NL]" "[NL, NL]" s] by simp
  next
    case False
    with 1 show ?thesis by (simp add: collapse_newlines.simps [of s])
  qed
qed

lemma sublist_strip: "sublist (strip s) s"
proof -
  have "sublist (dropWhile is_space (rev (dropWhile is_space s))) (rev (dropWhile is_space s))"
    by (rule sublist_dropWhile)
  then have "sublist (strip s) (dropWhile is_space s)"
    by (simp add: strip_def sublist_rev_left)
  then show ?thesis using sublist_dropWhile sublist_order.order_trans by blast
qed

lemma dropWhile_self: "xs = [] \<or> \<not> P (hd xs) \<Longrightarrow> dropWhile P xs = xs"
  by (cases xs) auto

lemma trim_right_keeps_head:
  "t = [] \<or> \<not> P (hd t) \<Longrightarrow> dropWhile P (rev (dropWhile P (rev t))) = rev (dropWhile P (rev t))"
proof (induction t rule: rev_induct)
  case Nil
  then show ?case by simp
next
  case (snoc x xs)
  show ?case
  proof (cases "P x")
    case True
    with snoc show ?thesis by (cases xs) auto
  next
    case False
    with snoc show ?thesis by (cases xs) auto
  qed
qed

lemma strip_strip: "strip (strip s) = strip s"
proof -
  have "dropWhile is_space s = [] \<or> \<not> is_space (hd (dropWhile is_space s))"
    using hd_dropWhile by blast
  then have "dropWhile is_space (strip s) = strip s"
    unfolding strip_def by (rule trim_right_keeps_head)
  then show ?thesis by (simp add: strip_def)
qed


text \<open>
  C8.  \<open>sanitize_output\<close> is idempotent: for every text \<open>x\<close>,
  \<open>sanitize_output (sanitize_output x) = sanitize_output x\<close>, where \<open>sanitize_output\<close>
  replaces the literals \<open><script>\<close> and \<open></script>\<close> by their bracketed forms, collapses
  runs of three or more newlines to two, and strips whitespace at both ends.
\<close>

theorem sanitize_output_idempotent:
  "sanitize_output (sanitize_output x) = sanitize_output x"
proof -
  define a where "a = replace ''<script>'' ''[script]'' x"
  define b where "b = replace ''</script>'' ''[/script]'' a"
  define c where "c = collapse_newlines b"
  define y where "y = strip c"
  have y: "sanitize_output x = y"
    by (simp add: sanitize_output_def a_def b_def c_def y_def)
  have a1: "\<not> sublist ''<script>'' a"
    unfolding a_def by (rule replace_removes_old) simp_all
  have b1: "\<not> sublist ''<script>'' b"
  proof
    assume "sublist ''<script>'' b"
    then have "sublist ''<script>'' a"
      unfolding b_def by (rule replace_no_new_occurrence) simp_all
    with a1 show False by simp
  qed
  have b2: "\<not> sublist ''</script>'' b"
    unfolding b_def by (rule replace_removes_old) simp_all
  have c1: "\<not> sublist ''<script>'' c"
  proof
    assume "sublist ''<script>'' c"
    then have "sublist ''<script>'' b"
      unfolding c_def by (rule collapse_newlines_no_new_occurrence) (simp_all add: NL_def)
    with b1 show False by simp
  qed
  have c2: "\<not> sublist ''</script>'' c"
  proof
    assume "sublist ''</script>'' c"
    then have "sublist ''</script>'' b"
      unfolding c_def by (rule collapse_newlines_no_new_occurrence) (simp_all add: NL_def)
    with b2 show False by simp
  qed
  have c3: "\<not> sublist [NL, NL, NL] c"
    unfolding c_def by (rule collapse_newlines_done)
  have yc: "sublist y c"
    unfolding y_def by (rule sublist_strip)
  have y1: "\<not> sublist ''<script>'' y"
    using c1 yc sublist_order.order_trans by blast
  have y2: "\<not> sublist ''</script>'' y"
    using c2 yc sublist_order.order_trans by blast
  have y3: "\<not> sublist [NL, NL, NL] y"
    using c3 yc sublist_order.order_trans by blast
  have "sanitize_output y = strip y"
    by (simp add: sanitize_output_def replace_absent [OF y1] replace_absent [OF y2]
        collapse_newlines_absent [OF y3])
  also have "\<dots> = y"
    unfolding y_def by (rule strip_strip)
  finally show ?thesis by (simp add: y)
qed

theorem sanitize_output_idempotent_witness:
  "sanitize_output (sanitize_output (''  <script>hi</script>'' @ [NL, NL, NL, NL] @ ''bye ''))
   = ''[script]hi[/script]'' @ [NL, NL] @ ''bye''"
proof -
  have "sanitize_output (''  <script>hi</script>'' @ [NL, NL, NL, NL] @ ''bye '')
        = ''[script]hi[/script]'' @ [NL, NL] @ ''bye''"
    by code_simp
  then show ?thesis
    using sanitize_output_idempotent [of "''  <script>hi</script>'' @ [NL, NL, NL, NL] @ ''bye ''"]
    by simp
qed

section \<open>PII redaction: the claim\<close>

text \<open>
  What a pattern matches, said without the matcher: \<open>mt r pv u rest\<close> holds when \<open>r\<close>
  matches the text \<open>u\<close> that comes after the character \<open>pv\<close> and before \<open>rest\<close>.  The
  matcher finds exactly these matches.
\<close>

definition last_opt :: "char option \<Rightarrow> string \<Rightarrow> char option" where
  "last_opt pv u = (if u = [] then pv else Some (last u))"

fun mt :: "rx \<Rightarrow> char option \<Rightarrow> string \<Rightarrow> string \<Rightarrow> bool" where
  "mt (Cls p) pv u rest = (\<exists>c. u = [c] \<and> p c)"
| "mt Bnd pv u rest = (u = [] \<and> at_boundary pv rest)"
| "mt Bol pv u rest = (u = [] \<and> pv = None)"
| "mt Eol pv u rest = (u = [] \<and> (rest = [] \<or> rest = [CHR 0x0A]))"
| "mt (Cat a b) pv u rest =
     (\<exists>u1 u2. u = u1 @ u2 \<and> mt a pv u1 (u2 @ rest) \<and> mt b (last_opt pv u1) u2 rest)"
| "mt (Opt a) pv u rest = (u = [] \<or> mt a pv u rest)"
| "mt (Rep lo hi p) pv u rest =
     (list_all p u \<and> lo \<le> length u \<and> (case hi of None \<Rightarrow> True | Some h \<Rightarrow> length u \<le> h))"

lemma last_opt_Nil [simp]: "last_opt pv [] = pv"
  by (simp add: last_opt_def)

lemma last_opt_Cons [simp]: "last_opt pv (c # u) = last_opt (Some c) u"
  by (simp add: last_opt_def)

lemma last_opt_append [simp]: "last_opt pv (u @ v) = last_opt (last_opt pv u) v"
  by (simp add: last_opt_def)

lemma rep_all_iff:
  "(pv', rest) \<in> set (rep_all p lo hi pv s) \<longleftrightarrow>
   (\<exists>u. s = u @ rest \<and> pv' = last_opt pv u \<and> list_all p u \<and> lo \<le> length u
        \<and> (case hi of None \<Rightarrow> True | Some h \<Rightarrow> length u \<le> h))"
proof (induction s arbitrary: lo hi pv)
  case Nil
  then show ?case by (auto split: option.splits)
next
  case (Cons c cs)
  have step: "(\<exists>u. c # cs = u @ rest \<and> pv' = last_opt pv u \<and> list_all p u \<and> lo \<le> length u
        \<and> (case hi of None \<Rightarrow> True | Some h \<Rightarrow> length u \<le> h))
    \<longleftrightarrow> (lo = 0 \<and> rest = c # cs \<and> pv' = pv)
       \<or> (p c \<and> hi \<noteq> Some 0 \<and> (\<exists>u. cs = u @ rest \<and> pv' = last_opt (Some c) u \<and> list_all p u
            \<and> lo - 1 \<le> length u
            \<and> (case map_option (\<lambda>h. h - 1) hi of None \<Rightarrow> True | Some h \<Rightarrow> length u \<le> h)))"
    (is "?L \<longleftrightarrow> ?A \<or> ?B")
  proof
    assume ?L
    then obtain u where u: "c # cs = u @ rest" "pv' = last_opt pv u" "list_all p u" "lo \<le> length u"
      "(case hi of None \<Rightarrow> True | Some h \<Rightarrow> length u \<le> h)" by blast
    show "?A \<or> ?B"
    proof (cases u)
      case Nil
      with u show ?thesis by simp
    next
      case (Cons a u')
      with u have "?B" by (auto split: option.splits)
      then show ?thesis ..
    qed
  next
    assume "?A \<or> ?B"
    then show ?L
    proof
      assume ?A
      then have "c # cs = [] @ rest \<and> pv' = last_opt pv [] \<and> list_all p [] \<and> lo \<le> length ([]::string)
        \<and> (case hi of None \<Rightarrow> True | Some h \<Rightarrow> length ([]::string) \<le> h)"
        by (auto split: option.splits)
      then show ?L by blast
    next
      assume ?B
      then obtain u where "p c" "hi \<noteq> Some 0" "cs = u @ rest" "pv' = last_opt (Some c) u" "list_all p u"
        "lo - 1 \<le> length u" "(case map_option (\<lambda>h. h - 1) hi of None \<Rightarrow> True | Some h \<Rightarrow> length u \<le> h)"
        by blast
      then have "c # cs = (c # u) @ rest \<and> pv' = last_opt pv (c # u) \<and> list_all p (c # u)
        \<and> lo \<le> length (c # u) \<and> (case hi of None \<Rightarrow> True | Some h \<Rightarrow> length (c # u) \<le> h)"
        by (auto split: option.splits)
      then show ?L by blast
    qed
  qed
  show ?case
    unfolding step using Cons.IH [of "lo - 1" "map_option (\<lambda>h. h - 1) hi" "Some c"]
    by auto
qed

lemma rx_all_iff:
  "(pv', rest) \<in> set (rx_all r (pv, s)) \<longleftrightarrow>
   (\<exists>u. s = u @ rest \<and> pv' = last_opt pv u \<and> mt r pv u rest)"
proof (induction r arbitrary: pv s pv' rest)
  case (Cls p)
  then show ?case by (cases s) auto
next
  case Bnd
  then show ?case by auto
next
  case Bol
  then show ?case by auto
next
  case Eol
  then show ?case by auto
next
  case (Cat a b)
  show ?case
  proof
    assume "(pv', rest) \<in> set (rx_all (Cat a b) (pv, s))"
    then obtain pv1 s1 where 1: "(pv1, s1) \<in> set (rx_all a (pv, s))"
      and 2: "(pv', rest) \<in> set (rx_all b (pv1, s1))" by auto
    from 1 Cat.IH(1) obtain u1 where u1: "s = u1 @ s1" "pv1 = last_opt pv u1" "mt a pv u1 s1" by blast
    from 2 Cat.IH(2) obtain u2 where u2: "s1 = u2 @ rest" "pv' = last_opt pv1 u2" "mt b pv1 u2 rest" by blast
    from u1 u2 have "s = (u1 @ u2) @ rest \<and> pv' = last_opt pv (u1 @ u2) \<and> mt (Cat a b) pv (u1 @ u2) rest"
      by auto
    then show "\<exists>u. s = u @ rest \<and> pv' = last_opt pv u \<and> mt (Cat a b) pv u rest" by blast
  next
    assume "\<exists>u. s = u @ rest \<and> pv' = last_opt pv u \<and> mt (Cat a b) pv u rest"
    then obtain u1 u2 where u: "s = (u1 @ u2) @ rest" "pv' = last_opt pv (u1 @ u2)"
      "mt a pv u1 (u2 @ rest)" "mt b (last_opt pv u1) u2 rest" by auto
    then have "(last_opt pv u1, u2 @ rest) \<in> set (rx_all a (pv, s))"
      using Cat.IH(1) by auto
    moreover from u have "(pv', rest) \<in> set (rx_all b (last_opt pv u1, u2 @ rest))"
      using Cat.IH(2) by auto
    ultimately show "(pv', rest) \<in> set (rx_all (Cat a b) (pv, s))" by auto
  qed
next
  case (Opt a)
  then show ?case by auto
next
  case (Rep lo hi p)
  then show ?case by (simp add: rep_all_iff)
qed

text \<open>
  The four PII patterns have no anchors, begin and end with a word boundary, accept no
  bracket, and every match of theirs has a digit or an at-sign.  A placeholder begins
  and ends with a bracket and has neither digit nor at-sign.  A match depends on its
  surroundings only through whether the characters next to it are word characters.
\<close>

fun no_anchor :: "rx \<Rightarrow> bool" where
  "no_anchor Bol = False"
| "no_anchor Eol = False"
| "no_anchor (Cat a b) = (no_anchor a \<and> no_anchor b)"
| "no_anchor (Opt a) = no_anchor a"
| "no_anchor _ = True"

fun starts_bnd :: "rx \<Rightarrow> bool" where
  "starts_bnd Bnd = True"
| "starts_bnd (Cat a b) = starts_bnd a"
| "starts_bnd _ = False"

fun ends_bnd :: "rx \<Rightarrow> bool" where
  "ends_bnd Bnd = True"
| "ends_bnd (Cat a b) = ends_bnd b"
| "ends_bnd _ = False"

fun chars_ok :: "(char \<Rightarrow> bool) \<Rightarrow> rx \<Rightarrow> bool" where
  "chars_ok A (Cls p) = (\<forall>c. p c \<longrightarrow> A c)"
| "chars_ok A (Rep lo hi p) = (\<forall>c. p c \<longrightarrow> A c)"
| "chars_ok A (Cat a b) = (chars_ok A a \<and> chars_ok A b)"
| "chars_ok A (Opt a) = chars_ok A a"
| "chars_ok A _ = True"

fun must_have :: "(char \<Rightarrow> bool) \<Rightarrow> rx \<Rightarrow> bool" where
  "must_have K (Cls p) = (\<forall>c. p c \<longrightarrow> K c)"
| "must_have K (Rep lo hi p) = (0 < lo \<and> (\<forall>c. p c \<longrightarrow> K c))"
| "must_have K (Cat a b) = (must_have K a \<or> must_have K b)"
| "must_have K _ = False"

lemma mt_transfer:
  "mt r pv u rest \<Longrightarrow> no_anchor r \<Longrightarrow> word_opt pv2 = word_opt pv \<Longrightarrow>
   word_opt (head_opt rest2) = word_opt (head_opt rest) \<Longrightarrow> mt r pv2 u rest2"
proof (induction r arbitrary: pv u rest pv2 rest2)
  case (Cat a b)
  from Cat.prems(1) obtain u1 u2 where u: "u = u1 @ u2" "mt a pv u1 (u2 @ rest)"
    "mt b (last_opt pv u1) u2 rest" by auto
  have h: "word_opt (head_opt (u2 @ rest2)) = word_opt (head_opt (u2 @ rest))"
    using Cat.prems(4) by (cases u2) (simp_all add: head_opt_def)
  have l: "word_opt (last_opt pv2 u1) = word_opt (last_opt pv u1)"
    using Cat.prems(3) by (simp add: last_opt_def)
  have "mt a pv2 u1 (u2 @ rest2)"
    using Cat.IH(1) [OF u(2) _ Cat.prems(3) h] Cat.prems(2) by simp
  moreover have "mt b (last_opt pv2 u1) u2 rest2"
    using Cat.IH(2) [OF u(3) _ l Cat.prems(4)] Cat.prems(2) by simp
  ultimately show ?case using u(1) by auto
qed (auto simp add: at_boundary_def)

lemma mt_starts: "mt r pv u rest \<Longrightarrow> starts_bnd r \<Longrightarrow> at_boundary pv (u @ rest)"
  by (induction r arbitrary: pv u rest) auto

lemma mt_ends: "mt r pv u rest \<Longrightarrow> ends_bnd r \<Longrightarrow> at_boundary (last_opt pv u) rest"
  by (induction r arbitrary: pv u rest) auto

lemma mt_chars: "mt r pv u rest \<Longrightarrow> chars_ok A r \<Longrightarrow> \<forall>c\<in>set u. A c"
  by (induction r arbitrary: pv u rest) (auto simp add: list_all_iff)

lemma mt_must: "mt r pv u rest \<Longrightarrow> must_have K r \<Longrightarrow> \<exists>c\<in>set u. K c"
proof (induction r arbitrary: pv u rest)
  case (Rep lo hi p)
  then have "u \<noteq> []" and "list_all p u" by auto
  then have "hd u \<in> set u" and "p (hd u)" by (auto simp add: list_all_iff)
  with Rep show ?case by auto
next
  case (Cat a b)
  from Cat.prems(1) obtain u1 u2 where u: "u = u1 @ u2" "mt a pv u1 (u2 @ rest)"
    "mt b (last_opt pv u1) u2 rest" by auto
  from Cat.prems(2) consider (left) "must_have K a" | (right) "must_have K b" by auto
  then show ?case
  proof cases
    case left
    with Cat.IH(1) u(2) obtain c where "c \<in> set u1" "K c" by blast
    with u(1) show ?thesis by auto
  next
    case right
    with Cat.IH(2) u(3) obtain c where "c \<in> set u2" "K c" by blast
    with u(1) show ?thesis by auto
  qed
qed auto

definition not_bracket :: "char \<Rightarrow> bool" where
  "not_bracket c = (c \<noteq> CHR ''['' \<and> c \<noteq> CHR '']'')"

definition key_char :: "char \<Rightarrow> bool" where
  "key_char c = (is_digit c \<or> c = CHR ''@'')"

definition pii_like :: "rx \<Rightarrow> bool" where
  "pii_like r = (no_anchor r \<and> starts_bnd r \<and> ends_bnd r \<and> chars_ok not_bracket r
     \<and> must_have key_char r)"

definition token_like :: "string \<Rightarrow> bool" where
  "token_like t = (t \<noteq> [] \<and> hd t = CHR ''['' \<and> last t = CHR '']'' \<and> (\<forall>c\<in>set t. \<not> key_char c))"

lemma pii_like_match:
  assumes "pii_like r" and "(pv', rest) \<in> set (rx_all r (pv, s))"
  shows "\<exists>u. s = u @ rest \<and> u \<noteq> [] \<and> pv' = Some (last u) \<and> mt r pv u rest
    \<and> at_boundary pv s \<and> at_boundary (Some (last u)) rest
    \<and> (\<forall>c\<in>set u. not_bracket c) \<and> (\<exists>c\<in>set u. key_char c)"
proof -
  from assms(2) obtain u where u: "s = u @ rest" "pv' = last_opt pv u" "mt r pv u rest"
    using rx_all_iff by blast
  from assms(1) u(3) have k: "\<exists>c\<in>set u. key_char c"
    using mt_must pii_like_def by blast
  then have ne: "u \<noteq> []" by auto
  from assms(1) u(3) have "at_boundary pv (u @ rest)" "at_boundary (last_opt pv u) rest"
    "\<forall>c\<in>set u. not_bracket c"
    using mt_starts mt_ends mt_chars pii_like_def by blast+
  with u k ne show ?thesis by (auto simp add: last_opt_def)
qed

lemma pii_like_email: "pii_like rx_email"
  by (auto simp add: pii_like_def rx_email_def Lit_def not_bracket_def key_char_def
      email_local_def email_domain_def email_tld_def one_of_def is_AZ_def is_az_def is_digit_def code_def)

lemma pii_like_phone: "pii_like rx_phone"
  by (auto simp add: pii_like_def rx_phone_def Lit_def not_bracket_def key_char_def
      one_of_def is_digit_def code_def)

lemma pii_like_ssn: "pii_like rx_ssn"
  by (auto simp add: pii_like_def rx_ssn_def Lit_def not_bracket_def key_char_def
      is_digit_def code_def)

lemma pii_like_credit_card: "pii_like rx_credit_card"
  by (auto simp add: pii_like_def rx_credit_card_def Lit_def not_bracket_def key_char_def
      dash_or_space_def is_space_def is_digit_def code_def)

lemma token_like_placeholders:
  "token_like (placeholder ''email'')" "token_like (placeholder ''phone'')"
  "token_like (placeholder ''ssn'')" "token_like (placeholder ''credit_card'')"
  by (simp_all add: token_like_def placeholder_def upper_def upper_char_def is_az_def key_char_def
      is_digit_def code_def)

text \<open>
  The substitution copies the subject up to a match and puts the placeholder there.  A
  match of a pattern \<open>P\<close> in the result of substituting \<open>Q\<close> lies in copied text, and
  is a match of \<open>P\<close> in the subject at a place where \<open>Q\<close> does not match.
\<close>

lemma rx_find_iff:
  "rx_find r pv s \<longleftrightarrow> (\<exists>u1 u2. s = u1 @ u2 \<and> rx_all r (last_opt pv u1, u2) \<noteq> [])"
proof (induction s arbitrary: pv)
  case Nil
  then show ?case by simp
next
  case (Cons c cs)
  show ?case
  proof
    assume "rx_find r pv (c # cs)"
    then consider (here) "rx_all r (pv, c # cs) \<noteq> []" | (later) "rx_find r (Some c) cs" by auto
    then show "\<exists>u1 u2. c # cs = u1 @ u2 \<and> rx_all r (last_opt pv u1, u2) \<noteq> []"
    proof cases
      case here
      then have "c # cs = [] @ (c # cs) \<and> rx_all r (last_opt pv [], c # cs) \<noteq> []" by simp
      then show ?thesis by blast
    next
      case later
      with Cons.IH obtain u1 u2 where "cs = u1 @ u2" "rx_all r (last_opt (Some c) u1, u2) \<noteq> []"
        by blast
      then have "c # cs = (c # u1) @ u2 \<and> rx_all r (last_opt pv (c # u1), u2) \<noteq> []" by simp
      then show ?thesis by blast
    qed
  next
    assume "\<exists>u1 u2. c # cs = u1 @ u2 \<and> rx_all r (last_opt pv u1, u2) \<noteq> []"
    then obtain u1 u2 where u: "c # cs = u1 @ u2" "rx_all r (last_opt pv u1, u2) \<noteq> []" by blast
    show "rx_find r pv (c # cs)"
    proof (cases u1)
      case Nil
      with u have "rx_all r (pv, c # cs) \<noteq> []" by simp
      then show ?thesis by simp
    next
      case (Cons a u1')
      with u have "cs = u1' @ u2" "rx_all r (last_opt (Some c) u1', u2) \<noteq> []" by auto
      with Cons.IH have "rx_find r (Some c) cs" by blast
      then show ?thesis by simp
    qed
  qed
qed

lemma bracket_not_word:
  "\<not> word_opt (Some CHR ''['')" "\<not> word_opt (Some CHR '']'')"
  by (simp_all add: word_opt_def is_word_def is_digit_def is_AZ_def is_az_def code_def)

lemma rx_sub_match:
  assumes "pii_like Q" and "rx_all Q (pv, s) \<noteq> []"
  obtains u rest where "s = u @ rest" "u \<noteq> []" "mt Q pv u rest"
    "rx_sub Q t pv s = t @ rx_sub Q t (Some (last u)) rest"
    "at_boundary pv s" "at_boundary (Some (last u)) rest"
proof -
  obtain pv' rest where h: "hd (rx_all Q (pv, s)) = (pv', rest)" by (cases "hd (rx_all Q (pv, s))")
  with assms(2) have "(pv', rest) \<in> set (rx_all Q (pv, s))"
    using hd_in_set by metis
  with assms(1) obtain u where u: "s = u @ rest" "u \<noteq> []" "pv' = Some (last u)" "mt Q pv u rest"
    "at_boundary pv s" "at_boundary (Some (last u)) rest"
    using pii_like_match by blast
  from u(1,2) obtain c cs where s: "s = c # cs" by (cases u) auto
  from u have "length rest < length s" by simp
  with assms(2) h s u(3) have "rx_sub Q t pv s = t @ rx_sub Q t (Some (last u)) rest" by simp
  with u that show ?thesis by blast
qed

lemma rx_sub_head:
  assumes "pii_like Q" and "token_like t"
  shows "head_opt (rx_sub Q t pv s)
    = (if rx_all Q (pv, s) \<noteq> [] then Some CHR ''['' else head_opt s)"
proof (cases "rx_all Q (pv, s) \<noteq> []")
  case True
  then obtain u rest where "rx_sub Q t pv s = t @ rx_sub Q t (Some (last u)) rest"
    using rx_sub_match [OF assms(1)] by metis
  with True assms(2) show ?thesis
    by (cases t) (auto simp add: head_opt_def token_like_def)
next
  case False
  then show ?thesis by (cases s) (auto simp add: head_opt_def)
qed

lemma rx_sub_copied_prefix:
  assumes "pii_like Q" and "token_like t"
  shows "rx_sub Q t pv s = u @ r \<Longrightarrow> CHR ''['' \<notin> set u \<Longrightarrow>
    \<exists>s'. s = u @ s' \<and> rx_sub Q t (last_opt pv u) s' = r"
proof (induction u arbitrary: pv s)
  case Nil
  then show ?case by simp
next
  case (Cons a u)
  show ?case
  proof (cases s)
    case Nil
    with Cons.prems show ?thesis by simp
  next
    case (Cons c cs)
    show ?thesis
    proof (cases "rx_all Q (pv, s) \<noteq> []")
      case True
      have "head_opt (rx_sub Q t pv s) = Some CHR ''[''"
        using rx_sub_head [OF assms] True by simp
      with Cons.prems show ?thesis by (simp add: head_opt_def)
    next
      case False
      with Cons Cons.prems(1) have "c = a" and "rx_sub Q t (Some c) cs = u @ r" by auto
      moreover from Cons.prems(2) have "CHR ''['' \<notin> set u" by simp
      ultimately obtain s' where "cs = u @ s'" and "rx_sub Q t (last_opt (Some c) u) s' = r"
        using Cons.IH by blast
      with \<open>c = a\<close> Cons show ?thesis by simp
    qed
  qed
qed

lemma nonempty_has_element:
  assumes "xs \<noteq> []"
  obtains a b where "(a, b) \<in> set xs"
  using assms by (cases xs) auto

lemma rx_sub_find:
  assumes P: "pii_like P" and Q: "pii_like Q" and t: "token_like t"
  shows "rx_find P pv (rx_sub Q t pv s) \<Longrightarrow>
    \<exists>u1 u2. s = u1 @ u2 \<and> rx_all P (last_opt pv u1, u2) \<noteq> [] \<and> rx_all Q (last_opt pv u1, u2) = []"
proof (induction "length s" arbitrary: pv s rule: less_induct)
  case less
  have noanchor: "no_anchor P" using P by (simp add: pii_like_def)
  show ?case
  proof (cases "rx_all Q (pv, s) \<noteq> []")
    case True
    obtain uQ rest where q: "s = uQ @ rest" "uQ \<noteq> []"
      "rx_sub Q t pv s = t @ rx_sub Q t (Some (last uQ)) rest" "at_boundary (Some (last uQ)) rest"
      using rx_sub_match [OF Q True, where t = t] by metis
    define o' where "o' = rx_sub Q t (Some (last uQ)) rest"
    from less.prems q(3) have "rx_find P pv (t @ o')" by (simp add: o'_def)
    then obtain w1 w2 where w: "t @ o' = w1 @ w2" "rx_all P (last_opt pv w1, w2) \<noteq> []"
      using rx_find_iff by blast
    from w(2) obtain pv'' r'' where "(pv'', r'') \<in> set (rx_all P (last_opt pv w1, w2))"
      by (rule nonempty_has_element)
    with P obtain uP where p: "w2 = uP @ r''" "uP \<noteq> []" "mt P (last_opt pv w1) uP r''"
      "at_boundary (last_opt pv w1) w2" "\<forall>c\<in>set uP. not_bracket c" "\<exists>c\<in>set uP. key_char c"
      using pii_like_match by blast
    have inside: "rx_find P (Some (last uQ)) o'"
    proof -
      from w(1) obtain us where "t = w1 @ us \<and> us @ o' = w2 \<or> t @ us = w1 \<and> o' = us @ w2"
        by (auto simp add: append_eq_append_conv2)
      then consider (in_token) t2 where "t = w1 @ t2" "t2 \<noteq> []" "w2 = t2 @ o'"
        | (after) w1' where "w1 = t @ w1'" "o' = w1' @ w2"
        by (cases "us = []") auto
      then show ?thesis
      proof cases
        case in_token
        from p(1) in_token(3) have "uP @ r'' = t2 @ o'" by simp
        then obtain vs where "uP = t2 @ vs \<or> uP @ vs = t2"
          by (auto simp add: append_eq_append_conv2)
        then show ?thesis
        proof
          assume "uP = t2 @ vs"
          with in_token(2) have "last t2 \<in> set uP" by simp
          moreover from in_token(1,2) t have "last t2 = CHR '']''" by (simp add: token_like_def)
          ultimately show ?thesis using p(5) by (auto simp add: not_bracket_def)
        next
          assume "uP @ vs = t2"
          with in_token(1) have "set uP \<subseteq> set t" by auto
          with p(6) t show ?thesis by (auto simp add: token_like_def)
        qed
      next
        case after
        show ?thesis
        proof (cases "w1' = []")
          case False
          with after(1) have "last_opt pv w1 = last_opt (Some (last uQ)) w1'"
            by (simp add: last_opt_def)
          with w(2) after(2) show ?thesis using rx_find_iff by metis
        next
          case True
          with after t have w2: "w2 = o'" and lp: "last_opt pv w1 = Some CHR '']''"
            by (auto simp add: last_opt_def token_like_def)
          from p(4) lp have wo: "word_opt (head_opt o')"
            using bracket_not_word by (simp add: at_boundary_def w2)
          have "head_opt o' = (if rx_all Q (Some (last uQ), rest) \<noteq> [] then Some CHR ''['' else head_opt rest)"
            unfolding o'_def by (rule rx_sub_head [OF Q t])
          with wo have "word_opt (head_opt rest)"
            using bracket_not_word by (cases "rx_all Q (Some (last uQ), rest) \<noteq> []") simp_all
          with q(4) have "\<not> word_opt (Some (last uQ))" by (simp add: at_boundary_def)
          with lp have "word_opt (Some (last uQ)) = word_opt (last_opt pv w1)"
            using bracket_not_word by simp
          from mt_transfer [OF p(3) noanchor this refl] have "mt P (Some (last uQ)) uP r''" .
          with p(1) w2 have "(last_opt (Some (last uQ)) uP, r'') \<in> set (rx_all P (Some (last uQ), o'))"
            using rx_all_iff by blast
          then have "o' = [] @ o' \<and> rx_all P (last_opt (Some (last uQ)) [], o') \<noteq> []" by auto
          then show ?thesis using rx_find_iff by blast
        qed
      qed
    qed
    from q(1,2) have "length rest < length s" by simp
    from less.hyps [OF this, of "Some (last uQ)"] inside
    obtain u1 u2 where "rest = u1 @ u2" "rx_all P (last_opt (Some (last uQ)) u1, u2) \<noteq> []"
      "rx_all Q (last_opt (Some (last uQ)) u1, u2) = []"
      by (auto simp add: o'_def)
    moreover from q(2) have "last_opt pv uQ = Some (last uQ)" by (simp add: last_opt_def)
    ultimately have "s = (uQ @ u1) @ u2 \<and> rx_all P (last_opt pv (uQ @ u1), u2) \<noteq> []
      \<and> rx_all Q (last_opt pv (uQ @ u1), u2) = []"
      using q(1) by simp
    then show ?thesis by blast
  next
    case False
    show ?thesis
    proof (cases s)
      case Nil
      with less.prems have "rx_all P (pv, []) \<noteq> []" by simp
      then obtain a b where "(a, b) \<in> set (rx_all P (pv, []))" by (rule nonempty_has_element)
      with P show ?thesis using pii_like_match by fastforce
    next
      case (Cons c cs)
      define o' where "o' = rx_sub Q t (Some c) cs"
      from False Cons have o: "rx_sub Q t pv s = c # o'" by (simp add: o'_def)
      with less.prems consider (here) "rx_all P (pv, c # o') \<noteq> []" | (later) "rx_find P (Some c) o'"
        by auto
      then show ?thesis
      proof cases
        case later
        from Cons have "length cs < length s" by simp
        from less.hyps [OF this, of "Some c"] later
        obtain u1 u2 where "cs = u1 @ u2" "rx_all P (last_opt (Some c) u1, u2) \<noteq> []"
          "rx_all Q (last_opt (Some c) u1, u2) = []"
          by (auto simp add: o'_def)
        with Cons have "s = (c # u1) @ u2 \<and> rx_all P (last_opt pv (c # u1), u2) \<noteq> []
          \<and> rx_all Q (last_opt pv (c # u1), u2) = []" by simp
        then show ?thesis by blast
      next
        case here
        then obtain pv'' r_out where "(pv'', r_out) \<in> set (rx_all P (pv, c # o'))"
          by (rule nonempty_has_element)
        with P obtain uP where p: "c # o' = uP @ r_out" "uP \<noteq> []" "mt P pv uP r_out"
          "at_boundary (Some (last uP)) r_out" "\<forall>c\<in>set uP. not_bracket c"
          using pii_like_match by blast
        from o p(1) have "rx_sub Q t pv s = uP @ r_out" by simp
        moreover from p(5) have "CHR ''['' \<notin> set uP" by (auto simp add: not_bracket_def)
        ultimately obtain s' where s': "s = uP @ s'" "rx_sub Q t (last_opt pv uP) s' = r_out"
          using rx_sub_copied_prefix [OF Q t] by blast
        from p(2) have lp: "last_opt pv uP = Some (last uP)" by (simp add: last_opt_def)
        have ho: "head_opt r_out
          = (if rx_all Q (Some (last uP), s') \<noteq> [] then Some CHR ''['' else head_opt s')"
          using rx_sub_head [OF Q t, of "Some (last uP)" s'] s'(2) lp by simp
        have "word_opt (head_opt s') = word_opt (head_opt r_out)"
        proof (cases "rx_all Q (Some (last uP), s') \<noteq> []")
          case True
          then have b: "at_boundary (Some (last uP)) s'"
            using rx_sub_match [OF Q True, where t = t] by metis
          from ho True have h: "head_opt r_out = Some CHR ''[''" by simp
          with p(4) have "word_opt (Some (last uP))"
            using bracket_not_word by (simp add: at_boundary_def)
          with b h show ?thesis using bracket_not_word by (simp add: at_boundary_def)
        next
          case False
          with ho show ?thesis by simp
        qed
        from mt_transfer [OF p(3) noanchor refl this] have "mt P pv uP s'" .
        with s'(1) have "(last_opt pv uP, s') \<in> set (rx_all P (pv, s))"
          using rx_all_iff by blast
        then have "rx_all P (last_opt pv [], s) \<noteq> []" by auto
        with False have "s = [] @ s \<and> rx_all P (last_opt pv [], s) \<noteq> []
          \<and> rx_all Q (last_opt pv [], s) = []" by simp
        then show ?thesis by blast
      qed
    qed
  qed
qed

lemma re_sub_removes:
  assumes "pii_like Q" and "token_like t"
  shows "\<not> re_search Q (re_sub Q t s)"
  using rx_sub_find [OF assms(1) assms(1) assms(2), of None s]
  by (auto simp add: re_search_def re_sub_def)

lemma re_sub_preserves:
  assumes "pii_like P" and "pii_like Q" and "token_like t" and "\<not> re_search P s"
  shows "\<not> re_search P (re_sub Q t s)"
proof
  assume "re_search P (re_sub Q t s)"
  then obtain u1 u2 where "s = u1 @ u2" "rx_all P (last_opt None u1, u2) \<noteq> []"
    using rx_sub_find [OF assms(1,2,3), of None s] by (auto simp add: re_search_def re_sub_def)
  then have "re_search P s" using rx_find_iff re_search_def by blast
  with assms(4) show False by simp
qed

lemma pii_patterns_like:
  "p \<in> set pii_patterns \<Longrightarrow> pii_like (snd p) \<and> token_like (placeholder (fst p))"
  using pii_like_email pii_like_phone pii_like_ssn pii_like_credit_card token_like_placeholders
  by (auto simp add: pii_patterns_def)

lemma pii_step_preserves:
  assumes "p \<in> set pii_patterns" and "x \<in> set pii_patterns" and "\<not> re_search (snd p) (snd acc)"
  shows "\<not> re_search (snd p) (snd (pii_step q acc x))"
  using assms pii_patterns_like re_sub_preserves by (simp add: pii_step_def)

lemma pii_step_removes:
  assumes "x \<in> set pii_patterns" and "re_search (snd x) q \<or> \<not> re_search (snd x) (snd acc)"
  shows "\<not> re_search (snd x) (snd (pii_step q acc x))"
  using assms pii_patterns_like re_sub_removes by (auto simp add: pii_step_def)

lemma pii_loop_clean:
  "set ps \<subseteq> set pii_patterns \<Longrightarrow>
   (\<forall>p\<in>set pii_patterns. \<not> re_search (snd p) q \<longrightarrow>
      \<not> re_search (snd p) (snd (foldl (pii_step q) ([], q) ps)))
   \<and> (\<forall>p\<in>set ps. \<not> re_search (snd p) (snd (foldl (pii_step q) ([], q) ps)))"
proof (induction ps rule: rev_induct)
  case Nil
  then show ?case by simp
next
  case (snoc x ps)
  then have x: "x \<in> set pii_patterns" and ps: "set ps \<subseteq> set pii_patterns" by auto
  define acc where "acc = foldl (pii_step q) ([], q) ps"
  from snoc.IH ps have inv: "\<forall>p\<in>set pii_patterns. \<not> re_search (snd p) q \<longrightarrow> \<not> re_search (snd p) (snd acc)"
    and sofar: "\<forall>p\<in>set ps. \<not> re_search (snd p) (snd acc)"
    by (simp_all add: acc_def)
  have 1: "\<forall>p\<in>set pii_patterns. \<not> re_search (snd p) q \<longrightarrow> \<not> re_search (snd p) (snd (pii_step q acc x))"
    using inv x pii_step_preserves by blast
  have 2: "\<forall>p\<in>set ps. \<not> re_search (snd p) (snd (pii_step q acc x))"
    using sofar x ps pii_step_preserves by blast
  have 3: "\<not> re_search (snd x) (snd (pii_step q acc x))"
    using inv x pii_step_removes by blast
  from 1 2 3 show ?case by (simp add: acc_def)
qed

lemma pii_loop_nothing:
  "\<forall>p\<in>set ps. \<not> re_search (snd p) q \<Longrightarrow> foldl (pii_step q) acc ps = acc"
  by (induction ps arbitrary: acc) (simp_all add: pii_step_def)

text \<open>
  C1, as stated, fails in its first half: the matched text can remain in the redacted
  text where the word boundaries of the pattern do not hold.  In
  "123-45-6789 0123-45-67890" the SSN pattern matches the first eleven characters only, and
  the redacted text still contains "123-45-6789".
\<close>

theorem matched_text_remains_counterexample:
  "hd (rx_all rx_ssn (None, ''123-45-6789 0123-45-67890'')) = (Some CHR ''9'', '' 0123-45-67890'')
   \<and> redacted_text (check_pii_exposure ''123-45-6789 0123-45-67890'') = ''[REDACTED_SSN] 0123-45-67890''
   \<and> contains ''123-45-6789'' (redacted_text (check_pii_exposure ''123-45-6789 0123-45-67890''))"
  by code_simp

text \<open>
  C1, amended.  For every query, the redacted text of \<open>check_pii_exposure\<close>, which is the
  query forwarded to the router, has no match of any of the four PII patterns (email,
  phone, ssn, credit_card): all that the patterns match has been replaced by
  placeholders.  Redaction is idempotent: \<open>check_pii_exposure\<close> applied to its own
  redacted text returns that text unchanged.
\<close>

theorem redaction_complete_and_idempotent:
  "\<not> re_search rx_email (redacted_text (check_pii_exposure q))
   \<and> \<not> re_search rx_phone (redacted_text (check_pii_exposure q))
   \<and> \<not> re_search rx_ssn (redacted_text (check_pii_exposure q))
   \<and> \<not> re_search rx_credit_card (redacted_text (check_pii_exposure q))
   \<and> redacted_text (check_pii_exposure (redacted_text (check_pii_exposure q)))
     = redacted_text (check_pii_exposure q)"
proof -
  define y where "y = redacted_text (check_pii_exposure q)"
  have y: "y = snd (foldl (pii_step q) ([], q) pii_patterns)"
    by (simp add: y_def check_pii_exposure_def Let_def)
  have clean: "\<forall>p\<in>set pii_patterns. \<not> re_search (snd p) y"
    unfolding y using pii_loop_clean [of pii_patterns q] by simp
  then have "foldl (pii_step y) ([], y) pii_patterns = ([], y)"
    by (rule pii_loop_nothing)
  then have "redacted_text (check_pii_exposure y) = y"
    by (simp add: check_pii_exposure_def Let_def)
  with clean show ?thesis
    by (simp add: y_def [symmetric] pii_patterns_def)
qed

theorem redaction_complete_and_idempotent_witness:
  "\<not> re_search rx_ssn ''My SSN is [REDACTED_SSN]''
   \<and> redacted_text (check_pii_exposure ''My SSN is [REDACTED_SSN]'') = ''My SSN is [REDACTED_SSN]''"
proof -
  have "redacted_text (check_pii_exposure ''My SSN is 123-45-6789'') = ''My SSN is [REDACTED_SSN]''"
    by code_simp
  then show ?thesis
    using redaction_complete_and_idempotent [of "''My SSN is 123-45-6789''"] by simp
qed

end
